theory Spec2Isabelle
  imports Complex_Main "HOL-Library.AList"
begin

section \<open>Battleship: the game engine of the React component\<close>

text \<open>
  The engine is the refactored component: the helpers \<open>createEmptyBoard\<close> ... \<open>markShipSunk\<close>
  and the closures \<open>applyShot\<close>, \<open>updateAfterHit\<close>, \<open>handleShot\<close>, \<open>resetGame\<close> and the
  \<open>gameOver\<close> effect of \<open>App\<close>. (The first version, \<open>src/App.jsx\<close>, has the same steps written
  inline; its \<open>gameOver\<close> effect is modelled beside the refactored one.) JavaScript array
  reads out of range give \<open>undefined\<close>, and reading a property of \<open>undefined\<close> throws a
  \<open>TypeError\<close>; exceptions are values of the type \<open>error\<close>. Coordinates are integers, so
  that a negative index misses the array as it does in JavaScript.
\<close>

subsection \<open>Data\<close>

record cell =
  hasShip :: bool
  hit :: bool
  shipId :: "string option"
  sunk :: bool

type_synonym board = "cell list list"

type_synonym coord = "int \<times> int"

text \<open>The catalogue entries \<open>{ id, size, name }\<close>; the fields carry a suffix because
  \<open>id\<close> and \<open>size\<close> are constants of HOL.\<close>

record ship =
  id_ship :: string
  size_ship :: nat
  name_ship :: string

datatype dir = H | V

datatype error =
    TypeError       \<comment> \<open>a property of \<open>undefined\<close> was read or written\<close>
  | PlacementError  \<comment> \<open>\<open>new Error("No se pudo ubicar el barco (intenta de nuevo).")\<close>\<close>
  | RowExtended     \<comment> \<open>not an exception: an assignment past the end of a row, see \<open>writeShip\<close>\<close>

definition GRID_SIZE :: int where
  "GRID_SIZE = 10"

definition SHIPS :: "ship list" where
  "SHIPS =
    [\<lparr>id_ship = ''A'', size_ship = 5, name_ship = ''Portaaviones''\<rparr>,
     \<lparr>id_ship = ''B'', size_ship = 4, name_ship = ''Acorazado''\<rparr>,
     \<lparr>id_ship = ''C'', size_ship = 3, name_ship = ''Crucero''\<rparr>,
     \<lparr>id_ship = ''D'', size_ship = 3, name_ship = ''Submarino''\<rparr>,
     \<lparr>id_ship = ''E'', size_ship = 2, name_ship = ''Destructor''\<rparr>]"

subsection \<open>Array access\<close>

text \<open>\<open>board[r][c]\<close> as a read: \<open>None\<close> when the expression is \<open>undefined\<close> or the read of
  \<open>board[r]\<close> already failed; every use in the source reads a property of the result next,
  which throws in both cases.\<close>

definition cellAt :: "board \<Rightarrow> int \<Rightarrow> int \<Rightarrow> cell option" where
  "cellAt board r c =
     (if 0 \<le> r \<and> nat r < length board then
        (let row = board ! nat r in
         if 0 \<le> c \<and> nat c < length row then Some (row ! nat c) else None)
      else None)"

text \<open>\<open>board[r][c] = x\<close>, and \<open>board[r][c].f = v\<close> with \<open>x\<close> the updated cell, for an index
  that \<open>cellAt\<close> found.\<close>

definition setCell :: "board \<Rightarrow> int \<Rightarrow> int \<Rightarrow> cell \<Rightarrow> board" where
  "setCell board r c x = board[nat r := (board ! nat r)[nat c := x]]"

subsection \<open>Pure helpers\<close>

definition emptyCell :: cell where
  "emptyCell = \<lparr>hasShip = False, hit = False, shipId = None, sunk = False\<rparr>"

definition createEmptyBoard :: board where
  "createEmptyBoard = replicate (nat GRID_SIZE) (replicate (nat GRID_SIZE) emptyCell)"

definition cloneBoard :: "board \<Rightarrow> board" where
  "cloneBoard board = map (\<lambda>row. map (\<lambda>c. c) row) board"

text \<open>\<open>Math.random()\<close> is a draw \<open>x\<close> with \<open>0 \<le> x < 1\<close>, taken as a rational number (the
  rounding of the floating-point product is not modelled). The source of randomness is a
  sequence of draws \<open>rng\<close> and the position \<open>i\<close> of the next one.\<close>

type_synonym rng = "nat \<Rightarrow> rat"

definition randomInt :: "int \<Rightarrow> rat \<Rightarrow> int" where
  "randomInt m x = \<lfloor>x * of_int m\<rfloor>"

definition dirLimits :: "dir \<Rightarrow> nat \<Rightarrow> int \<times> int" where
  "dirLimits d sz =
     (if d = H then GRID_SIZE else GRID_SIZE - int sz + 1,
      if d = V then GRID_SIZE else GRID_SIZE - int sz + 1)"

definition getStep :: "dir \<Rightarrow> nat \<Rightarrow> int \<times> int" where
  "getStep d k = (if d = V then (int k, 0) else (0, int k))"

fun canPlaceAt_loop :: "board \<Rightarrow> int \<Rightarrow> int \<Rightarrow> dir \<Rightarrow> nat list \<Rightarrow> error + bool" where
  "canPlaceAt_loop board r0 c0 d [] = Inr True"
| "canPlaceAt_loop board r0 c0 d (k # ks) =
     (let (dr, dc) = getStep d k; r = r0 + dr; c = c0 + dc in
      case cellAt board r c of
        None \<Rightarrow> Inl TypeError
      | Some x \<Rightarrow> if hasShip x then Inr False else canPlaceAt_loop board r0 c0 d ks)"

definition canPlaceAt :: "board \<Rightarrow> int \<Rightarrow> int \<Rightarrow> dir \<Rightarrow> nat \<Rightarrow> error + bool" where
  "canPlaceAt board r0 c0 d sz = canPlaceAt_loop board r0 c0 d [0..<sz]"

text \<open>\<open>writeShip\<close> mutates the board and returns the coordinates; the model returns both.
  With \<open>board[r]\<close> undefined the assignment throws. With \<open>board[r]\<close> a row and \<open>c\<close> outside
  it, JavaScript would store a cell without \<open>hit\<close> and \<open>sunk\<close> beyond the row; the model
  stops there with \<open>RowExtended\<close>. \<open>placeShip\<close> calls \<open>writeShip\<close> only after \<open>canPlaceAt\<close>
  has read the same cells.\<close>

fun writeShip_loop ::
  "board \<Rightarrow> int \<Rightarrow> int \<Rightarrow> dir \<Rightarrow> ship \<Rightarrow> coord list \<Rightarrow> nat list \<Rightarrow> error + coord list \<times> board" where
  "writeShip_loop board r0 c0 d s coords [] = Inr (coords, board)"
| "writeShip_loop board r0 c0 d s coords (k # ks) =
     (let (dr, dc) = getStep d k; r = r0 + dr; c = c0 + dc in
      case cellAt board r c of
        None \<Rightarrow> Inl (if 0 \<le> r \<and> nat r < length board then RowExtended else TypeError)
      | Some x \<Rightarrow>
          writeShip_loop (setCell board r c (x\<lparr>hasShip := True, shipId := Some (id_ship s)\<rparr>))
            r0 c0 d s (coords @ [(r, c)]) ks)"

definition writeShip :: "board \<Rightarrow> int \<Rightarrow> int \<Rightarrow> dir \<Rightarrow> ship \<Rightarrow> error + coord list \<times> board" where
  "writeShip board r0 c0 d s = writeShip_loop board r0 c0 d s [] [0..<size_ship s]"

text \<open>The loop \<open>for (tries = 0; tries < 500; tries++)\<close>, counted down by the attempts left.
  Each attempt takes two draws.\<close>

fun placeShip_tries ::
  "rng \<Rightarrow> nat \<Rightarrow> board \<Rightarrow> ship \<Rightarrow> dir \<Rightarrow> int \<Rightarrow> int \<Rightarrow> nat \<Rightarrow> error + coord list \<times> board \<times> nat" where
  "placeShip_tries g i board s d maxRow maxCol 0 = Inl PlacementError"
| "placeShip_tries g i board s d maxRow maxCol (Suc n) =
     (let r0 = randomInt maxRow (g i); c0 = randomInt maxCol (g (i + 1)) in
      case canPlaceAt board r0 c0 d (size_ship s) of
        Inl e \<Rightarrow> Inl e
      | Inr free \<Rightarrow>
          if \<not> free then placeShip_tries g (i + 2) board s d maxRow maxCol n
          else (case writeShip board r0 c0 d s of
                  Inl e \<Rightarrow> Inl e
                | Inr (coords, board') \<Rightarrow> Inr (coords, board', i + 2)))"

definition placeShip :: "rng \<Rightarrow> nat \<Rightarrow> board \<Rightarrow> ship \<Rightarrow> error + coord list \<times> board \<times> nat" where
  "placeShip g i board s =
     (let d = (if g i < 1 / 2 then H else V);
          (maxRow, maxCol) = dirLimits d (size_ship s)
      in placeShip_tries g (i + 1) board s d maxRow maxCol 500)"

text \<open>The object \<open>placements\<close>, keyed by ship id, as an association list in the order
  of insertion; \<open>placements[id] = coords\<close> is \<open>AList.update\<close> and a read is \<open>map_of\<close>.\<close>

type_synonym placements = "(string \<times> coord list) list"

fun buildBoard_loop ::
  "rng \<Rightarrow> nat \<Rightarrow> board \<Rightarrow> placements \<Rightarrow> ship list \<Rightarrow> error + board \<times> placements \<times> nat" where
  "buildBoard_loop g i board pl [] = Inr (board, pl, i)"
| "buildBoard_loop g i board pl (s # rest) =
     (case placeShip g i board s of
        Inl e \<Rightarrow> Inl e
      | Inr (coords, board', i') \<Rightarrow> buildBoard_loop g i' board' (AList.update (id_ship s) coords pl) rest)"

definition buildBoard :: "rng \<Rightarrow> nat \<Rightarrow> error + board \<times> placements \<times> nat" where
  "buildBoard g i = buildBoard_loop g i createEmptyBoard [] SHIPS"

text \<open>The two nested loops of \<open>getShipCells\<close> visit the coordinates in this order.\<close>

definition gridCoords :: "coord list" where
  "gridCoords = concat (map (\<lambda>r. map (\<lambda>c. (r, c)) [0..GRID_SIZE - 1]) [0..GRID_SIZE - 1])"

fun getShipCells_loop :: "board \<Rightarrow> string option \<Rightarrow> coord list \<Rightarrow> error + coord list" where
  "getShipCells_loop board sid [] = Inr []"
| "getShipCells_loop board sid ((r, c) # rest) =
     (case cellAt board r c of
        None \<Rightarrow> Inl TypeError
      | Some x \<Rightarrow>
          (case getShipCells_loop board sid rest of
             Inl e \<Rightarrow> Inl e
           | Inr cells \<Rightarrow> Inr (if shipId x = sid then (r, c) # cells else cells)))"

definition getShipCells :: "board \<Rightarrow> string option \<Rightarrow> error + coord list" where
  "getShipCells board sid = getShipCells_loop board sid gridCoords"

text \<open>\<open>cells.every(({ r, c }) => board[r][c].hit)\<close>: stops at the first cell not hit.\<close>

fun everyHit :: "board \<Rightarrow> coord list \<Rightarrow> error + bool" where
  "everyHit board [] = Inr True"
| "everyHit board ((r, c) # rest) =
     (case cellAt board r c of
        None \<Rightarrow> Inl TypeError
      | Some x \<Rightarrow> if hit x then everyHit board rest else Inr False)"

definition isShipSunk :: "board \<Rightarrow> string option \<Rightarrow> error + bool" where
  "isShipSunk board sid =
     (case getShipCells board sid of Inl e \<Rightarrow> Inl e | Inr cells \<Rightarrow> everyHit board cells)"

fun markCells :: "board \<Rightarrow> coord list \<Rightarrow> error + board" where
  "markCells board [] = Inr board"
| "markCells board ((r, c) # rest) =
     (case cellAt board r c of
        None \<Rightarrow> Inl TypeError
      | Some x \<Rightarrow> markCells (setCell board r c (x\<lparr>sunk := True\<rparr>)) rest)"

definition markShipSunk :: "board \<Rightarrow> string option \<Rightarrow> error + board" where
  "markShipSunk nextBoard sid =
     (case getShipCells nextBoard sid of Inl e \<Rightarrow> Inl e | Inr cells \<Rightarrow> markCells nextBoard cells)"

subsection \<open>The component state and its handlers\<close>

text \<open>The state variables of \<open>App\<close>. The counter that the source calls \<open>sunk\<close> is \<open>sunkCount\<close>
  here, since \<open>sunk\<close> is the field of a cell.\<close>

record session =
  board :: board
  placements :: placements
  shots :: nat
  hits :: nat
  sunkCount :: nat
  gameOver :: bool
  reveal :: bool

text \<open>The object that \<open>applyShot\<close> returns. When \<open>changed\<close> is false the source leaves
  \<open>wasHit\<close> and \<open>shipId\<close> out and \<open>handleShot\<close> does not read them.\<close>

record shotResult =
  changed :: bool
  board_of :: board
  wasHit :: bool
  shipId_of :: "string option"

definition totalShipCells :: nat where
  "totalShipCells = foldl (\<lambda>acc s. acc + size_ship s) 0 SHIPS"

definition unchanged :: "session \<Rightarrow> shotResult" where
  "unchanged st = \<lparr>changed = False, board_of = board st, wasHit = False, shipId_of = None\<rparr>"

definition applyShot :: "session \<Rightarrow> int \<Rightarrow> int \<Rightarrow> error + shotResult" where
  "applyShot st r c =
     (if gameOver st then Inr (unchanged st)
      else case cellAt (board st) r c of
        None \<Rightarrow> Inl TypeError
      | Some x \<Rightarrow>
          if hit x then Inr (unchanged st)
          else (let next = setCell (cloneBoard (board st)) r c (x\<lparr>hit := True\<rparr>) in
                Inr \<lparr>changed = True, board_of = next, wasHit = hasShip x,
                     shipId_of = shipId x\<rparr>))"

text \<open>\<open>updateAfterHit\<close> returns whether the ship has just been sunk, with the board it
  mutated and the counter it incremented. \<open>!shipId\<close> holds for \<open>null\<close> and for the empty
  string.\<close>

definition updateAfterHit ::
  "board \<Rightarrow> string option \<Rightarrow> nat \<Rightarrow> error + bool \<times> board \<times> nat" where
  "updateAfterHit nextBoard sid cnt =
     (if sid = None \<or> sid = Some [] then Inr (False, nextBoard, cnt)
      else case isShipSunk nextBoard sid of
        Inl e \<Rightarrow> Inl e
      | Inr s \<Rightarrow>
          if \<not> s then Inr (False, nextBoard, cnt)
          else (case markShipSunk nextBoard sid of
                  Inl e \<Rightarrow> Inl e
                | Inr b' \<Rightarrow> Inr (True, b', cnt + 1)))"

text \<open>\<open>handleShot\<close>: an exception leaves the handler before the new board is stored (the
  model then gives the exception only).\<close>

definition handleShot :: "session \<Rightarrow> int \<Rightarrow> int \<Rightarrow> error + session" where
  "handleShot st r c =
     (case applyShot st r c of
        Inl e \<Rightarrow> Inl e
      | Inr result \<Rightarrow>
          if \<not> changed result then Inr st
          else (let st1 = st\<lparr>shots := shots st + 1\<rparr>;
                    st2 = (if wasHit result then st1\<lparr>hits := hits st1 + 1\<rparr> else st1);
                    nextBoard = board_of result
                in if wasHit result then
                     (case updateAfterHit nextBoard (shipId_of result) (sunkCount st2) of
                        Inl e \<Rightarrow> Inl e
                      | Inr (justSunk, b', cnt) \<Rightarrow> Inr (st2\<lparr>board := b', sunkCount := cnt\<rparr>))
                   else Inr (st2\<lparr>board := nextBoard\<rparr>)))"

text \<open>The effect with dependencies \<open>[hits, totalShipCells]\<close>.\<close>

definition gameOverEffect :: "session \<Rightarrow> session" where
  "gameOverEffect st =
     (if totalShipCells = 0 then st
      else if hits st < totalShipCells then st
      else st\<lparr>gameOver := True\<rparr>)"

text \<open>The same effect as the first version of the component writes it.\<close>

definition gameOverEffect_App :: "session \<Rightarrow> session" where
  "gameOverEffect_App st =
     (if hits st \<ge> totalShipCells \<and> totalShipCells > 0 then st\<lparr>gameOver := True\<rparr> else st)"

text \<open>One click on the cell \<open>(r, c)\<close>: the handler, then the render, whose effect runs when
  \<open>hits\<close> has changed. Shots are processed one at a time.\<close>

definition click :: "session \<Rightarrow> int \<Rightarrow> int \<Rightarrow> error + session" where
  "click st r c =
     (case handleShot st r c of
        Inl e \<Rightarrow> Inl e
      | Inr st' \<Rightarrow> Inr (if hits st' \<noteq> hits st then gameOverEffect st' else st'))"

fun play :: "session \<Rightarrow> coord list \<Rightarrow> error + session" where
  "play st [] = Inr st"
| "play st ((r, c) # rest) =
     (case click st r c of Inl e \<Rightarrow> Inl e | Inr st' \<Rightarrow> play st' rest)"

text \<open>The initial state (\<open>useState(() => buildBoard())\<close> and the zeroed counters, then the
  effect of the first render) and \<open>resetGame\<close>; both return the position of the next draw.\<close>

definition freshSession :: "board \<Rightarrow> placements \<Rightarrow> session" where
  "freshSession b pl =
     \<lparr>board = b, placements = pl, shots = 0, hits = 0, sunkCount = 0,
      gameOver = False, reveal = False\<rparr>"

definition newGame :: "rng \<Rightarrow> nat \<Rightarrow> error + session \<times> nat" where
  "newGame g i =
     (case buildBoard g i of
        Inl e \<Rightarrow> Inl e
      | Inr (b, pl, i') \<Rightarrow> Inr (gameOverEffect (freshSession b pl), i'))"

definition resetGame :: "rng \<Rightarrow> nat \<Rightarrow> session \<Rightarrow> error + session \<times> nat" where
  "resetGame g i st =
     (case buildBoard g i of
        Inl e \<Rightarrow> Inl e
      | Inr (b, pl, i') \<Rightarrow>
          (let st' = st\<lparr>board := b, placements := pl, shots := 0, hits := 0, sunkCount := 0,
                       gameOver := False, reveal := False\<rparr>
           in Inr (if hits st' \<noteq> hits st then gameOverEffect st' else st', i')))"

subsection \<open>Predicates used in the properties, and example values\<close>

text \<open>The lengths of the rows: the shape of a board.\<close>

definition dims :: "board \<Rightarrow> nat list" where
  "dims b = map length b"

text \<open>A board of \<open>GRID_SIZE\<close> rows of \<open>GRID_SIZE\<close> cells.\<close>

definition boardOK :: "board \<Rightarrow> bool" where
  "boardOK b = (length b = nat GRID_SIZE \<and> list_all (\<lambda>row. length row = nat GRID_SIZE) b)"

text \<open>The number of cells of a board that satisfy \<open>P\<close>.\<close>

definition countCells :: "(cell \<Rightarrow> bool) \<Rightarrow> board \<Rightarrow> nat" where
  "countCells P b = length (filter P (concat b))"

text \<open>The \<open>k\<close>-th cell of a ship at origin \<open>(r0, c0)\<close>: the \<open>r\<close> and \<open>c\<close> that \<open>canPlaceAt\<close> and
  \<open>writeShip\<close> compute from \<open>step(k)\<close>.\<close>

definition pos :: "int \<Rightarrow> int \<Rightarrow> dir \<Rightarrow> nat \<Rightarrow> coord" where
  "pos r0 c0 d k = (r0 + fst (getStep d k), c0 + snd (getStep d k))"

text \<open>The cell that \<open>writeShip\<close> stores: \<open>{ ...cell, hasShip: true, shipId: ship.id }\<close>.\<close>

definition markShip :: "ship \<Rightarrow> cell \<Rightarrow> cell" where
  "markShip s x = x\<lparr>hasShip := True, shipId := Some (id_ship s)\<rparr>"

text \<open>The cell at \<open>p\<close> exists and has no ship.\<close>

definition freeAt :: "board \<Rightarrow> coord \<Rightarrow> bool" where
  "freeAt b p = (case cellAt b (fst p) (snd p) of None \<Rightarrow> False | Some x \<Rightarrow> \<not> hasShip x)"

text \<open>A list of coordinates that runs from its first one along a row, or along a column,
  in steps of one.\<close>

definition contiguous :: "coord list \<Rightarrow> bool" where
  "contiguous coords =
     (coords = [] \<or>
      (let r0 = fst (hd coords); c0 = snd (hd coords) in
       coords = map (\<lambda>k. (r0, c0 + int k)) [0..<length coords] \<or>
       coords = map (\<lambda>k. (r0 + int k, c0)) [0..<length coords]))"

text \<open>What a successful \<open>placeShip\<close> has done: the cells of the line were free, they are the
  coordinates returned, and the new board differs from the old one in these cells only.\<close>

definition placedAt :: "board \<Rightarrow> ship \<Rightarrow> int \<Rightarrow> int \<Rightarrow> dir \<Rightarrow> coord list \<Rightarrow> board \<Rightarrow> bool" where
  "placedAt b s r0 c0 d coords b' =
     ((\<forall>k<size_ship s. freeAt b (pos r0 c0 d k))
      \<and> coords = map (pos r0 c0 d) [0..<size_ship s]
      \<and> dims b' = dims b
      \<and> (\<forall>r c. cellAt b' r c =
            (if (r, c) \<in> set coords then map_option (markShip s) (cellAt b r c)
             else cellAt b r c))
      \<and> countCells hasShip b' = countCells hasShip b + size_ship s)"

text \<open>The invariant of the loop of \<open>buildBoard\<close>: no cell is hit or sunk, \<open>hasShip\<close> goes with
  \<open>shipId\<close>, a cell carries the id of a ship exactly when the placement of that ship lists
  it, placements are contiguous and inside the board, and the ship cells are as many as
  the coordinates placed.\<close>

definition placeInv :: "board \<Rightarrow> placements \<Rightarrow> bool" where
  "placeInv b pl =
     (boardOK b
      \<and> (\<forall>r c x. cellAt b r c = Some x \<longrightarrow> \<not> hit x \<and> \<not> sunk x \<and> (hasShip x \<longleftrightarrow> shipId x \<noteq> None))
      \<and> (\<forall>r c x sid. cellAt b r c = Some x \<longrightarrow>
            (shipId x = Some sid \<longleftrightarrow> (\<exists>coords. map_of pl sid = Some coords \<and> (r, c) \<in> set coords)))
      \<and> (\<forall>sid coords. map_of pl sid = Some coords \<longrightarrow>
            contiguous coords \<and> (\<forall>p\<in>set coords. cellAt b (fst p) (snd p) \<noteq> None))
      \<and> countCells hasShip b = sum_list (map (\<lambda>e. length (snd e)) pl))"

text \<open>A sequence of draws for the examples: 0.11, 0.48, 0.85, 0.22, ...\<close>

definition demoRng :: rng where
  "demoRng n = of_nat ((n * 37 + 11) mod 100) / 100"

text \<open>The board that \<open>buildBoard\<close> makes from the draws \<open>demoRng\<close>, written out: \<open>w\<close> is
  water and \<open>sc id\<close> a cell of the ship \<open>id\<close>, neither hit.\<close>

definition w :: cell where
  "w = \<lparr>hasShip = False, hit = False, shipId = None, sunk = False\<rparr>"

definition sc :: "string \<Rightarrow> cell" where
  "sc sid = \<lparr>hasShip = True, hit = False, shipId = Some sid, sunk = False\<rparr>"

definition demoBoard :: board where
  "demoBoard =
    [[w, w, w, w, w, w, w, w, w, w],
     [w, w, w, w, w, w, w, w, w, w],
     [w, w, w, w, w, w, w, w, w, w],
     [w, w, w, w, w, w, w, w, w, w],
     [w, w, w, w, w, sc ''A'', sc ''A'', sc ''A'', sc ''A'', sc ''A''],
     [sc ''E'', w, w, w, w, w, sc ''B'', sc ''B'', sc ''B'', sc ''B''],
     [sc ''E'', w, w, w, w, w, w, w, w, w],
     [sc ''C'', sc ''C'', sc ''C'', w, w, w, w, w, w, w],
     [w, sc ''D'', sc ''D'', sc ''D'', w, w, w, w, w, w],
     [w, w, w, w, w, w, w, w, w, w]]"

definition demoPlacements :: placements where
  "demoPlacements =
    [(''A'', [(4, 5), (4, 6), (4, 7), (4, 8), (4, 9)]),
     (''B'', [(5, 6), (5, 7), (5, 8), (5, 9)]),
     (''C'', [(7, 0), (7, 1), (7, 2)]),
     (''D'', [(8, 1), (8, 2), (8, 3)]),
     (''E'', [(5, 0), (6, 0)])]"

text \<open>The call returned, it did not throw.\<close>

definition succeeded :: "error + 'a \<Rightarrow> bool" where
  "succeeded x = (case x of Inl e \<Rightarrow> False | Inr v \<Rightarrow> True)"

text \<open>The cell at \<open>p\<close> exists and carries the id \<open>sid\<close>; the cell at \<open>p\<close> exists and is hit.\<close>

definition ownedBy :: "board \<Rightarrow> string option \<Rightarrow> coord \<Rightarrow> bool" where
  "ownedBy b sid p = (case cellAt b (fst p) (snd p) of None \<Rightarrow> False | Some x \<Rightarrow> shipId x = sid)"

definition hitAt :: "board \<Rightarrow> coord \<Rightarrow> bool" where
  "hitAt b p = (case cellAt b (fst p) (snd p) of None \<Rightarrow> False | Some x \<Rightarrow> hit x)"

text \<open>Every cell of the grid with the id \<open>sid\<close> is hit: what \<open>isShipSunk\<close> computes.\<close>

definition allHit :: "board \<Rightarrow> string option \<Rightarrow> bool" where
  "allHit b sid = list_all (\<lambda>p. ownedBy b sid p \<longrightarrow> hitAt b p) gridCoords"

text \<open>Every coordinate that \<open>getShipCells\<close> visits is a cell of the board.\<close>

definition gridIn :: "board \<Rightarrow> bool" where
  "gridIn b = list_all (\<lambda>p. cellAt b (fst p) (snd p) \<noteq> None) gridCoords"

text \<open>The cell after \<open>nextBoard[r][c].sunk = true\<close>.\<close>

definition markSunk :: "cell \<Rightarrow> cell" where
  "markSunk x = x\<lparr>sunk := True\<rparr>"

text \<open>An id that passes the test \<open>if (!shipId) return false\<close>: neither \<open>null\<close> nor empty.\<close>

definition truthy :: "string option \<Rightarrow> bool" where
  "truthy sid = (sid \<noteq> None \<and> sid \<noteq> Some [])"

text \<open>The two early returns of \<open>applyShot\<close>: the game is over, or the cell is already hit.\<close>

definition rejected :: "session \<Rightarrow> int \<Rightarrow> int \<Rightarrow> bool" where
  "rejected st r c =
     (gameOver st \<or> (case cellAt (board st) r c of None \<Rightarrow> False | Some x \<Rightarrow> hit x))"

text \<open>The cell at \<open>p\<close> after an accepted shot at \<open>target\<close>, on a cell with the id \<open>sid\<close>, that
  sank the ship (\<open>js\<close>) or did not.\<close>

definition afterShot :: "coord \<Rightarrow> bool \<Rightarrow> string option \<Rightarrow> coord \<Rightarrow> cell \<Rightarrow> cell" where
  "afterShot target js sid p y =
     y\<lparr>hit := hit y \<or> p = target,
       sunk := sunk y \<or> (js \<and> p \<in> set gridCoords \<and> shipId y = sid)\<rparr>"

text \<open>Whether the accepted shot at \<open>(r, c)\<close>, on the cell \<open>x\<close>, sinks a ship: the value that
  \<open>updateAfterHit\<close> returns, and false when it is not called.\<close>

definition justSunk :: "board \<Rightarrow> int \<Rightarrow> int \<Rightarrow> cell \<Rightarrow> bool" where
  "justSunk b r c x =
     (hasShip x \<and> truthy (shipId x) \<and> allHit (setCell b r c (x\<lparr>hit := True\<rparr>)) (shipId x))"

text \<open>The initial state on \<open>demoBoard\<close>, and the state after a click on its cell \<open>(4, 5)\<close>.\<close>

definition demoGame :: session where
  "demoGame = freshSession demoBoard demoPlacements"

definition demoHit :: session where
  "demoHit = (case click demoGame 4 5 of Inr st \<Rightarrow> st | Inl e \<Rightarrow> demoGame)"

text \<open>In every cell \<open>hasShip\<close> holds exactly when \<open>shipId\<close> is not \<open>null\<close>.\<close>

definition cellInv :: "board \<Rightarrow> bool" where
  "cellInv b = list_all (list_all (\<lambda>x. hasShip x = (shipId x \<noteq> None))) b"

text \<open>From \<open>b\<close> to \<open>b'\<close> every cell keeps \<open>hasShip\<close> and \<open>shipId\<close>, and \<open>hit\<close> and \<open>sunk\<close> are not
  taken back.\<close>

definition cellsGrow :: "board \<Rightarrow> board \<Rightarrow> bool" where
  "cellsGrow b b' =
     (\<forall>r c y. cellAt b r c = Some y \<longrightarrow>
        (\<exists>y'. cellAt b' r c = Some y' \<and> hasShip y' = hasShip y \<and> shipId y' = shipId y
           \<and> (hit y \<longrightarrow> hit y') \<and> (sunk y \<longrightarrow> sunk y')))"

text \<open>The first ship of the catalogue.\<close>

definition demoShip :: ship where
  "demoShip = \<lparr>id_ship = ''A'', size_ship = 5, name_ship = ''Portaaviones''\<rparr>"

text \<open>The invariant of a game: the board is 10 by 10 with as many ship cells as the
  catalogue has, \<open>hits\<close> counts the ship cells that are hit, \<open>gameOver\<close> says that all are,
  ship cells carry a non-empty id and the others none, and a cell is sunk exactly when it
  is a ship cell and every cell with its id is hit.\<close>

definition gameInv :: "session \<Rightarrow> bool" where
  "gameInv st =
     (boardOK (board st)
      \<and> countCells hasShip (board st) = totalShipCells
      \<and> hits st = countCells (\<lambda>x. hasShip x \<and> hit x) (board st)
      \<and> gameOver st = (totalShipCells \<le> hits st)
      \<and> (\<forall>r c x. cellAt (board st) r c = Some x \<longrightarrow>
            (hasShip x \<longrightarrow> truthy (shipId x)) \<and> (\<not> hasShip x \<longrightarrow> shipId x = None)
            \<and> sunk x = (hasShip x \<and> allHit (board st) (shipId x))))"

text \<open>The 17 ship cells of \<open>demoBoard\<close>.\<close>

definition demoShots :: "coord list" where
  "demoShots =
    [(4, 5), (4, 6), (4, 7), (4, 8), (4, 9), (5, 6), (5, 7), (5, 8), (5, 9),
     (7, 0), (7, 1), (7, 2), (8, 1), (8, 2), (8, 3), (5, 0), (6, 0)]"

text \<open>The states of the game on \<open>demoBoard\<close> after the first 16 of \<open>demoShots\<close> and after
  all 17, written out: \<open>hs id\<close> is a cell of a sunk ship.\<close>

definition hs :: "string \<Rightarrow> cell" where
  "hs sid = \<lparr>hasShip = True, hit = True, shipId = Some sid, sunk = True\<rparr>"

definition demoAlmost :: session where
  "demoAlmost =
    \<lparr>board =
      [[w, w, w, w, w, w, w, w, w, w],
       [w, w, w, w, w, w, w, w, w, w],
       [w, w, w, w, w, w, w, w, w, w],
       [w, w, w, w, w, w, w, w, w, w],
       [w, w, w, w, w, hs ''A'', hs ''A'', hs ''A'', hs ''A'', hs ''A''],
       [(sc ''E'')\<lparr>hit := True\<rparr>, w, w, w, w, w, hs ''B'', hs ''B'', hs ''B'', hs ''B''],
       [sc ''E'', w, w, w, w, w, w, w, w, w],
       [hs ''C'', hs ''C'', hs ''C'', w, w, w, w, w, w, w],
       [w, hs ''D'', hs ''D'', hs ''D'', w, w, w, w, w, w],
       [w, w, w, w, w, w, w, w, w, w]],
     placements = demoPlacements, shots = 16, hits = 16, sunkCount = 4,
     gameOver = False, reveal = False\<rparr>"

definition demoWin :: session where
  "demoWin =
    \<lparr>board =
      [[w, w, w, w, w, w, w, w, w, w],
       [w, w, w, w, w, w, w, w, w, w],
       [w, w, w, w, w, w, w, w, w, w],
       [w, w, w, w, w, w, w, w, w, w],
       [w, w, w, w, w, hs ''A'', hs ''A'', hs ''A'', hs ''A'', hs ''A''],
       [hs ''E'', w, w, w, w, w, hs ''B'', hs ''B'', hs ''B'', hs ''B''],
       [hs ''E'', w, w, w, w, w, w, w, w, w],
       [hs ''C'', hs ''C'', hs ''C'', w, w, w, w, w, w, w],
       [w, hs ''D'', hs ''D'', hs ''D'', w, w, w, w, w, w],
       [w, w, w, w, w, w, w, w, w, w]],
     placements = demoPlacements, shots = 17, hits = 17, sunkCount = 5,
     gameOver = True, reveal = False\<rparr>"






section \<open>Properties\<close>

lemma cellAt_SomeD:
  "cellAt b r c = Some x \<Longrightarrow>
     0 \<le> r \<and> nat r < length b \<and> 0 \<le> c \<and> nat c < length (b ! nat r) \<and> x = b ! nat r ! nat c"
  by (auto simp: cellAt_def Let_def split: if_splits)

lemma cellAt_nth:
  "i < length b \<Longrightarrow> j < length (b ! i) \<Longrightarrow> cellAt b (int i) (int j) = Some (b ! i ! j)"
  by (simp add: cellAt_def)

lemma dims_setCell [simp]: "dims (setCell b r c x) = dims b"
  by (cases "nat r < length b")
     (simp_all add: dims_def setCell_def map_update list_update_same_conv list_update_beyond)

lemma length_setCell [simp]: "length (setCell b r c x) = length b"
  by (simp add: setCell_def)

lemma cellAt_row:
  "0 \<le> r \<Longrightarrow> nat r < length b \<Longrightarrow>
     cellAt b r c = (if 0 \<le> c \<and> nat c < length (b ! nat r) then Some (b ! nat r ! nat c) else None)"
  by (simp add: cellAt_def Let_def)

lemma cellAt_outside: "\<not> (0 \<le> r \<and> nat r < length b) \<Longrightarrow> cellAt b r c = None"
  by (cases "0 \<le> r") (simp_all add: cellAt_def)

lemma cellAt_setCell:
  assumes "cellAt b r c = Some y"
  shows "cellAt (setCell b r c x) r' c' = (if r' = r \<and> c' = c then Some x else cellAt b r' c')"
proof -
  from cellAt_SomeD [OF assms] have rb: "0 \<le> r" "nat r < length b" "0 \<le> c" "nat c < length (b ! nat r)"
    by auto
  show ?thesis
  proof (cases "0 \<le> r' \<and> nat r' < length b")
    case False
    then have "r' \<noteq> r" using rb by auto
    moreover have "cellAt (setCell b r c x) r' c' = None"
      using False by (intro cellAt_outside) simp
    moreover have "cellAt b r' c' = None"
      using False by (intro cellAt_outside) simp
    ultimately show ?thesis by simp
  next
    case True
    show ?thesis
    proof (cases "r' = r")
      case eq: True
      have row: "setCell b r c x ! nat r = (b ! nat r)[nat c := x]"
        using rb(2) by (simp add: setCell_def)
      have new: "cellAt (setCell b r c x) r c' =
          (if 0 \<le> c' \<and> nat c' < length (b ! nat r) then Some ((b ! nat r)[nat c := x] ! nat c') else None)"
        using rb(1,2) by (subst cellAt_row) (simp_all add: row)
      have old: "cellAt b r c' =
          (if 0 \<le> c' \<and> nat c' < length (b ! nat r) then Some (b ! nat r ! nat c') else None)"
        using rb(1,2) by (rule cellAt_row)
      show ?thesis
      proof (cases "c' = c")
        case True
        with new rb(3,4) eq show ?thesis by simp
      next
        case False
        then have "0 \<le> c' \<Longrightarrow> nat c \<noteq> nat c'" using rb(3) by auto
        then show ?thesis using False eq by (simp add: new old)
      qed
    next
      case False
      then have ne: "nat r \<noteq> nat r'" using True rb by auto
      have row: "setCell b r c x ! nat r' = b ! nat r'"
        using ne by (simp add: setCell_def)
      have "cellAt (setCell b r c x) r' c' = cellAt b r' c'"
        using True by (simp add: cellAt_row row)
      then show ?thesis using False by simp
    qed
  qed
qed

lemma cellAt_dims_cong:
  "dims b' = dims b \<Longrightarrow> (cellAt b' r c = None) = (cellAt b r c = None)"
proof -
  assume d: "dims b' = dims b"
  then have l: "length b' = length b"
    by (auto simp: dims_def dest: map_eq_imp_length_eq)
  have "length (b' ! i) = length (b ! i)" if "i < length b" for i
    using d that l by (metis dims_def nth_map)
  then show ?thesis using l
    by (auto simp: cellAt_def Let_def)
qed

lemma boardOK_dims: "dims b' = dims b \<Longrightarrow> boardOK b' = boardOK b"
proof -
  assume d: "dims b' = dims b"
  then have l: "length b' = length b"
    by (auto simp: dims_def dest: map_eq_imp_length_eq)
  have "length (b' ! i) = length (b ! i)" if "i < length b" for i
    using d that l by (metis dims_def nth_map)
  then show ?thesis using l
    by (auto simp: boardOK_def list_all_length)
qed

lemma cloneBoard_id [simp]: "cloneBoard b = b"
  by (simp add: cloneBoard_def)

lemma boardOK_cellAt:
  "boardOK b \<Longrightarrow> (cellAt b r c \<noteq> None) = (0 \<le> r \<and> r < GRID_SIZE \<and> 0 \<le> c \<and> c < GRID_SIZE)"
  by (auto simp: boardOK_def cellAt_def Let_def GRID_SIZE_def list_all_length)

lemma set_gridCoords:
  "set gridCoords = {(r, c). 0 \<le> r \<and> r < GRID_SIZE \<and> 0 \<le> c \<and> c < GRID_SIZE}"
  by (auto simp: gridCoords_def)

lemma distinct_gridCoords: "distinct gridCoords"
  by code_simp

lemma length_filter_update:
  "i < length xs \<Longrightarrow>
     length (filter P (xs[i := x])) + (if P (xs ! i) then 1 else 0) =
     length (filter P xs) + (if P x then 1 else 0)"
proof (induction xs arbitrary: i)
  case Nil
  then show ?case by simp
next
  case (Cons a xs)
  then show ?case by (cases i) auto
qed

lemma sum_list_map_update:
  fixes f :: "'a \<Rightarrow> nat"
  shows "i < length xs \<Longrightarrow> sum_list (map f (xs[i := y])) + f (xs ! i) = sum_list (map f xs) + f y"
proof (induction xs arbitrary: i)
  case Nil
  then show ?case by simp
next
  case (Cons a xs)
  then show ?case by (cases i) auto
qed

lemma countCells_sum: "countCells P b = sum_list (map (\<lambda>row. length (filter P row)) b)"
  by (induction b) (simp_all add: countCells_def)

lemma countCells_setCell:
  assumes "cellAt b r c = Some y"
  shows "countCells P (setCell b r c x) + (if P y then 1 else 0) =
         countCells P b + (if P x then 1 else 0)"
proof -
  from cellAt_SomeD [OF assms] have rb: "nat r < length b" "nat c < length (b ! nat r)"
    and y: "y = b ! nat r ! nat c" by auto
  let ?f = "\<lambda>row. length (filter P row)"
  let ?row = "(b ! nat r)[nat c := x]"
  have 1: "countCells P (setCell b r c x) + ?f (b ! nat r) = countCells P b + ?f ?row"
    unfolding countCells_sum setCell_def using rb(1) by (rule sum_list_map_update)
  have 2: "?f ?row + (if P y then 1 else 0) = ?f (b ! nat r) + (if P x then 1 else 0)"
    unfolding y using rb(2) by (rule length_filter_update)
  from 1 2 show ?thesis by linarith
qed

lemma pos_inj: "pos r0 c0 d k = pos r0 c0 d k' \<Longrightarrow> k = k'"
  by (auto simp: pos_def getStep_def split: if_splits)

lemma canPlaceAt_loop_Cons:
  "canPlaceAt_loop b r0 c0 d (k # ks) =
     (case cellAt b (fst (pos r0 c0 d k)) (snd (pos r0 c0 d k)) of
        None \<Rightarrow> Inl TypeError
      | Some x \<Rightarrow> if hasShip x then Inr False else canPlaceAt_loop b r0 c0 d ks)"
  by (cases "getStep d k") (simp add: pos_def Let_def split: option.splits)

lemma writeShip_loop_Cons:
  "writeShip_loop b r0 c0 d s coords (k # ks) =
     (case cellAt b (fst (pos r0 c0 d k)) (snd (pos r0 c0 d k)) of
        None \<Rightarrow> Inl (if 0 \<le> fst (pos r0 c0 d k) \<and> nat (fst (pos r0 c0 d k)) < length b
                     then RowExtended else TypeError)
      | Some x \<Rightarrow>
          writeShip_loop (setCell b (fst (pos r0 c0 d k)) (snd (pos r0 c0 d k)) (markShip s x))
            r0 c0 d s (coords @ [pos r0 c0 d k]) ks)"
  by (cases "getStep d k") (simp add: pos_def markShip_def Let_def split: option.splits)

lemma canPlaceAt_loop_True:
  "canPlaceAt_loop b r0 c0 d ks = Inr True \<longleftrightarrow> (\<forall>k\<in>set ks. freeAt b (pos r0 c0 d k))"
proof (induction ks)
  case Nil
  then show ?case by simp
next
  case (Cons k ks)
  then show ?case
    unfolding canPlaceAt_loop_Cons by (auto simp: freeAt_def split: option.splits)
qed


lemma writeShip_loop_ok:
  assumes "\<forall>k\<in>set ks. freeAt b (pos r0 c0 d k)" and "distinct ks"
  shows "\<exists>b'. writeShip_loop b r0 c0 d s coords ks = Inr (coords @ map (pos r0 c0 d) ks, b')
           \<and> dims b' = dims b
           \<and> (\<forall>r c. cellAt b' r c =
                 (if (r, c) \<in> pos r0 c0 d ` set ks then map_option (markShip s) (cellAt b r c)
                  else cellAt b r c))
           \<and> countCells hasShip b' = countCells hasShip b + length ks"
  using assms
proof (induction ks arbitrary: b coords)
  case Nil
  then show ?case by simp
next
  case (Cons k ks)
  let ?p = "pos r0 c0 d k"
  from Cons.prems(1) obtain x where x: "cellAt b (fst ?p) (snd ?p) = Some x" "\<not> hasShip x"
    by (auto simp: freeAt_def split: option.splits)
  let ?b1 = "setCell b (fst ?p) (snd ?p) (markShip s x)"
  have c1: "cellAt ?b1 r c = (if (r, c) = ?p then Some (markShip s x) else cellAt b r c)" for r c
    using cellAt_setCell [OF x(1)] by (auto simp: prod_eq_iff)
  have ne: "pos r0 c0 d k' \<noteq> ?p" if "k' \<in> set ks" for k'
    using that Cons.prems(2) pos_inj by fastforce
  have free1: "\<forall>k'\<in>set ks. freeAt ?b1 (pos r0 c0 d k')"
  proof
    fix k' assume k': "k' \<in> set ks"
    then have "freeAt b (pos r0 c0 d k')" using Cons.prems(1) by simp
    moreover have "cellAt ?b1 (fst (pos r0 c0 d k')) (snd (pos r0 c0 d k')) =
        cellAt b (fst (pos r0 c0 d k')) (snd (pos r0 c0 d k'))"
      using ne [OF k'] by (simp add: c1)
    ultimately show "freeAt ?b1 (pos r0 c0 d k')" by (simp add: freeAt_def)
  qed
  from Cons.prems(2) have "distinct ks" by simp
  from Cons.IH [OF free1 this, of "coords @ [?p]"] obtain b' where
    b': "writeShip_loop ?b1 r0 c0 d s (coords @ [?p]) ks = Inr ((coords @ [?p]) @ map (pos r0 c0 d) ks, b')"
      "dims b' = dims ?b1"
      "\<And>r c. cellAt b' r c =
         (if (r, c) \<in> pos r0 c0 d ` set ks then map_option (markShip s) (cellAt ?b1 r c)
          else cellAt ?b1 r c)"
      "countCells hasShip b' = countCells hasShip ?b1 + length ks"
    by blast
  have cnt: "countCells hasShip ?b1 = countCells hasShip b + 1"
    using countCells_setCell [OF x(1), of hasShip "markShip s x"] x(2)
    by (simp add: markShip_def)
  have "writeShip_loop b r0 c0 d s coords (k # ks) = Inr (coords @ map (pos r0 c0 d) (k # ks), b')"
    unfolding writeShip_loop_Cons using x(1) b'(1) by simp
  moreover have "dims b' = dims b" using b'(2) by simp
  moreover have "cellAt b' r c =
      (if (r, c) \<in> pos r0 c0 d ` set (k # ks) then map_option (markShip s) (cellAt b r c)
       else cellAt b r c)" for r c
  proof (cases "(r, c) = ?p")
    case True
    have "(r, c) \<notin> pos r0 c0 d ` set ks"
    proof
      assume "(r, c) \<in> pos r0 c0 d ` set ks"
      then obtain k' where "k' \<in> set ks" "(r, c) = pos r0 c0 d k'" by auto
      with ne True show False by metis
    qed
    moreover have "cellAt b r c = Some x" using True x(1) by (metis fst_conv snd_conv)
    moreover have "(r, c) \<in> pos r0 c0 d ` set (k # ks)" using True by simp
    ultimately show ?thesis using True by (simp add: b'(3) c1)
  next
    case False
    then show ?thesis by (auto simp: b'(3) c1)
  qed
  moreover have "countCells hasShip b' = countCells hasShip b + length (k # ks)"
    using b'(4) cnt by simp
  ultimately show ?case by blast
qed

lemma contiguous_line: "contiguous (map (pos r0 c0 d) [0..<n])"
proof (cases "n = 0")
  case True
  then show ?thesis by (simp add: contiguous_def)
next
  case False
  then have "hd (map (pos r0 c0 d) [0..<n]) = (r0, c0)"
    by (simp add: hd_map pos_def getStep_def)
  then show ?thesis
    by (cases d) (simp_all add: contiguous_def pos_def getStep_def)
qed

lemma canPlaceAt_True:
  "canPlaceAt b r0 c0 d n = Inr True \<longleftrightarrow> (\<forall>k<n. freeAt b (pos r0 c0 d k))"
  by (auto simp: canPlaceAt_def canPlaceAt_loop_True)

lemma writeShip_placedAt:
  assumes "\<forall>k<size_ship s. freeAt b (pos r0 c0 d k)"
  shows "\<exists>coords b'. writeShip b r0 c0 d s = Inr (coords, b') \<and> placedAt b s r0 c0 d coords b'"
proof -
  have "\<forall>k\<in>set [0..<size_ship s]. freeAt b (pos r0 c0 d k)" using assms by simp
  from writeShip_loop_ok [OF this, of s "[]"] obtain b' where
    "writeShip_loop b r0 c0 d s [] [0..<size_ship s] = Inr ([] @ map (pos r0 c0 d) [0..<size_ship s], b')"
    "dims b' = dims b"
    "\<forall>r c. cellAt b' r c =
        (if (r, c) \<in> pos r0 c0 d ` set [0..<size_ship s] then map_option (markShip s) (cellAt b r c)
         else cellAt b r c)"
    "countCells hasShip b' = countCells hasShip b + length [0..<size_ship s]"
    by auto
  then show ?thesis using assms
    by (auto simp: writeShip_def placedAt_def)
qed

lemma placeShip_tries_Inr:
  "placeShip_tries g i b s d mr mc n = Inr (coords, b', i') \<Longrightarrow>
     \<exists>r0 c0. placedAt b s r0 c0 d coords b'"
proof (induction n arbitrary: i)
  case 0
  then show ?case by simp
next
  case (Suc n)
  let ?r0 = "randomInt mr (g i)" and ?c0 = "randomInt mc (g (i + 1))"
  show ?case
  proof (cases "canPlaceAt b ?r0 ?c0 d (size_ship s)")
    case (Inl e)
    with Suc.prems show ?thesis by (simp add: Let_def)
  next
    case (Inr free)
    show ?thesis
    proof (cases free)
      case False
      with Inr Suc.prems have "placeShip_tries g (i + 2) b s d mr mc n = Inr (coords, b', i')"
        by (simp add: Let_def)
      then show ?thesis by (rule Suc.IH)
    next
      case True
      with Inr have "\<forall>k<size_ship s. freeAt b (pos ?r0 ?c0 d k)"
        by (simp add: canPlaceAt_True)
      from writeShip_placedAt [OF this] obtain cs bb where
        w: "writeShip b ?r0 ?c0 d s = Inr (cs, bb)" "placedAt b s ?r0 ?c0 d cs bb"
        by blast
      with Inr True Suc.prems have "cs = coords" "bb = b'"
        by (simp_all add: Let_def)
      with w(2) show ?thesis by blast
    qed
  qed
qed

lemma placeShip_Inr:
  "placeShip g i b s = Inr (coords, b', i') \<Longrightarrow> \<exists>r0 c0 d. placedAt b s r0 c0 d coords b'"
proof -
  assume a: "placeShip g i b s = Inr (coords, b', i')"
  obtain d mr mc where "placeShip g i b s = placeShip_tries g (i + 1) b s d mr mc 500"
    by (cases "dirLimits (if g i < 1 / 2 then H else V) (size_ship s)")
       (simp add: placeShip_def Let_def)
  with a placeShip_tries_Inr show ?thesis by metis
qed

lemma update_fresh: "k \<notin> fst ` set al \<Longrightarrow> AList.update k v al = al @ [(k, v)]"
  by (induction al) auto

lemma placeInv_step:
  assumes inv: "placeInv b pl" and pa: "placedAt b s r0 c0 d coords b'"
    and fresh: "id_ship s \<notin> fst ` set pl"
  shows "placeInv b' (AList.update (id_ship s) coords pl)"
proof -
  let ?id = "id_ship s"
  let ?pl = "AList.update ?id coords pl"
  have mo: "map_of ?pl = (map_of pl)(?id \<mapsto> coords)" by (rule update_conv')
  have none: "map_of pl ?id = None" using fresh by (simp add: map_of_eq_None_iff)
  from pa have free: "\<And>k. k < size_ship s \<Longrightarrow> freeAt b (pos r0 c0 d k)"
    and coords: "coords = map (pos r0 c0 d) [0..<size_ship s]"
    and d: "dims b' = dims b"
    and ca: "\<And>r c. cellAt b' r c =
            (if (r, c) \<in> set coords then map_option (markShip s) (cellAt b r c) else cellAt b r c)"
    and cnt: "countCells hasShip b' = countCells hasShip b + size_ship s"
    by (auto simp: placedAt_def)
  from inv have ok: "boardOK b"
    and i2: "\<And>r c x. cellAt b r c = Some x \<Longrightarrow> \<not> hit x \<and> \<not> sunk x \<and> (hasShip x \<longleftrightarrow> shipId x \<noteq> None)"
    and i3: "\<And>r c x sid. cellAt b r c = Some x \<Longrightarrow>
            (shipId x = Some sid \<longleftrightarrow> (\<exists>cs. map_of pl sid = Some cs \<and> (r, c) \<in> set cs))"
    and i4: "\<And>sid cs. map_of pl sid = Some cs \<Longrightarrow>
            contiguous cs \<and> (\<forall>p\<in>set cs. cellAt b (fst p) (snd p) \<noteq> None)"
    and i5: "countCells hasShip b = sum_list (map (\<lambda>e. length (snd e)) pl)"
    by (auto simp: placeInv_def)
  have freeC: "freeAt b (r, c)" if "(r, c) \<in> set coords" for r c
    using that free coords by auto
  have p1: "boardOK b'" using ok boardOK_dims [OF d] by simp
  have p2: "\<not> hit x \<and> \<not> sunk x \<and> (hasShip x \<longleftrightarrow> shipId x \<noteq> None)" if "cellAt b' r c = Some x" for r c x
  proof (cases "(r, c) \<in> set coords")
    case True
    with that ca obtain y where "cellAt b r c = Some y" "x = markShip s y" by auto
    with i2 [of r c y] show ?thesis by (simp add: markShip_def)
  next
    case False
    with that ca i2 show ?thesis by simp
  qed
  have p3: "shipId x = Some sid \<longleftrightarrow> (\<exists>cs. map_of ?pl sid = Some cs \<and> (r, c) \<in> set cs)"
    if "cellAt b' r c = Some x" for r c x sid
  proof (cases "(r, c) \<in> set coords")
    case True
    with that ca obtain y where y: "cellAt b r c = Some y" "x = markShip s y" by auto
    from freeC [OF True] y have "\<not> hasShip y" by (simp add: freeAt_def)
    with i2 [OF y(1)] have "shipId y = None" by simp
    with i3 [OF y(1)] have "\<And>sid. \<not> (\<exists>cs. map_of pl sid = Some cs \<and> (r, c) \<in> set cs)" by simp
    then show ?thesis using True y(2) by (auto simp: mo markShip_def)
  next
    case False
    with that ca have "cellAt b r c = Some x" by simp
    from i3 [OF this] show ?thesis using False none by (auto simp: mo)
  qed
  have p4: "contiguous cs \<and> (\<forall>p\<in>set cs. cellAt b' (fst p) (snd p) \<noteq> None)"
    if "map_of ?pl sid = Some cs" for sid cs
  proof (cases "sid = ?id")
    case True
    with that have cs: "cs = coords" by (simp add: mo)
    have "cellAt b (fst p) (snd p) \<noteq> None" if "p \<in> set coords" for p
      using freeC [of "fst p" "snd p"] that by (auto simp: freeAt_def split: option.splits)
    then have "\<forall>p\<in>set coords. cellAt b' (fst p) (snd p) \<noteq> None"
      using cellAt_dims_cong [OF d] by simp
    moreover have "contiguous coords" unfolding coords by (rule contiguous_line)
    ultimately show ?thesis unfolding cs by simp
  next
    case False
    with that have "map_of pl sid = Some cs" by (simp add: mo)
    from i4 [OF this] show ?thesis using cellAt_dims_cong [OF d] by simp
  qed
  have p5: "countCells hasShip b' = sum_list (map (\<lambda>e. length (snd e)) ?pl)"
    using cnt i5 coords by (simp add: update_fresh [OF fresh])
  from p1 p2 p3 p4 p5 show ?thesis unfolding placeInv_def by blast
qed

lemma succeededE: "succeeded x \<Longrightarrow> \<exists>v. x = Inr v"
  by (cases x) (simp_all add: succeeded_def)

lemma cellAt_createEmptyBoard: "cellAt createEmptyBoard r c = Some x \<Longrightarrow> x = emptyCell"
  by (auto simp: createEmptyBoard_def dest!: cellAt_SomeD)

lemma boardOK_createEmptyBoard: "boardOK createEmptyBoard"
  by (simp add: boardOK_def createEmptyBoard_def list_all_length)

lemma countCells_createEmptyBoard: "countCells hasShip createEmptyBoard = 0"
  by (simp add: countCells_def createEmptyBoard_def emptyCell_def filter_empty_conv)

lemma placeInv_empty: "placeInv createEmptyBoard []"
  unfolding placeInv_def
  using boardOK_createEmptyBoard countCells_createEmptyBoard
  by (auto dest!: cellAt_createEmptyBoard simp: emptyCell_def)

lemma placedAt_length: "placedAt b s r0 c0 d coords b' \<Longrightarrow> length coords = size_ship s"
  by (simp add: placedAt_def)

lemma buildBoard_loop_inv:
  assumes "buildBoard_loop g i b pl ships = Inr (b', pl', i')" and "placeInv b pl"
    and "distinct (map id_ship ships)" and "\<forall>s\<in>set ships. id_ship s \<notin> fst ` set pl"
  shows "placeInv b' pl'
     \<and> map fst pl' = map fst pl @ map id_ship ships
     \<and> (\<forall>s\<in>set ships. \<exists>coords. map_of pl' (id_ship s) = Some coords \<and> length coords = size_ship s)
     \<and> (\<forall>sid\<in>fst ` set pl. map_of pl' sid = map_of pl sid)
     \<and> sum_list (map (\<lambda>e. length (snd e)) pl') =
         sum_list (map (\<lambda>e. length (snd e)) pl) + sum_list (map size_ship ships)"
  using assms
proof (induction ships arbitrary: i b pl)
  case Nil
  then show ?case by simp
next
  case (Cons s rest)
  let ?id = "id_ship s"
  from Cons.prems(1) obtain coords b1 i1 where
    ps: "placeShip g i b s = Inr (coords, b1, i1)"
    and rest: "buildBoard_loop g i1 b1 (AList.update ?id coords pl) rest = Inr (b', pl', i')"
    by (auto split: sum.splits)
  let ?pl1 = "AList.update ?id coords pl"
  from Cons.prems(4) have fresh: "?id \<notin> fst ` set pl" by simp
  from placeShip_Inr [OF ps] obtain r0 c0 d where pa: "placedAt b s r0 c0 d coords b1" by blast
  have inv1: "placeInv b1 ?pl1" using Cons.prems(2) pa fresh by (rule placeInv_step)
  have pl1: "?pl1 = pl @ [(?id, coords)]" using fresh by (rule update_fresh)
  have d: "distinct (map id_ship rest)" using Cons.prems(3) by simp
  have f: "\<forall>t\<in>set rest. id_ship t \<notin> fst ` set ?pl1"
  proof
    fix t assume t: "t \<in> set rest"
    have "?id \<notin> id_ship ` set rest" using Cons.prems(3) by simp
    with t have "id_ship t \<noteq> ?id" by (metis image_eqI)
    moreover have "id_ship t \<notin> fst ` set pl" using Cons.prems(4) t by simp
    ultimately show "id_ship t \<notin> fst ` set ?pl1" unfolding pl1 by auto
  qed
  from Cons.IH [OF rest inv1 d f] have
    r1: "placeInv b' pl'"
    and r2: "map fst pl' = map fst ?pl1 @ map id_ship rest"
    and r3: "\<forall>t\<in>set rest. \<exists>coords. map_of pl' (id_ship t) = Some coords \<and> length coords = size_ship t"
    and r4: "\<forall>sid\<in>fst ` set ?pl1. map_of pl' sid = map_of ?pl1 sid"
    and r5: "sum_list (map (\<lambda>e. length (snd e)) pl') =
         sum_list (map (\<lambda>e. length (snd e)) ?pl1) + sum_list (map size_ship rest)"
    by auto
  have mo: "map_of ?pl1 = (map_of pl)(?id \<mapsto> coords)" by (rule update_conv')
  have "?id \<in> fst ` set ?pl1" unfolding pl1 by simp
  with r4 have "map_of pl' ?id = map_of ?pl1 ?id" by (rule bspec)
  then have "map_of pl' ?id = Some coords" by (simp add: mo)
  then have s3: "\<exists>cs. map_of pl' ?id = Some cs \<and> length cs = size_ship s"
    using placedAt_length [OF pa] by simp
  have s4: "\<forall>sid\<in>fst ` set pl. map_of pl' sid = map_of pl sid"
  proof
    fix sid assume sid: "sid \<in> fst ` set pl"
    then have "sid \<noteq> ?id" using fresh by blast
    moreover have "sid \<in> fst ` set ?pl1" using sid unfolding pl1 by auto
    with r4 have "map_of pl' sid = map_of ?pl1 sid" by (rule bspec)
    ultimately show "map_of pl' sid = map_of pl sid" by (simp add: mo)
  qed
  have s5: "sum_list (map (\<lambda>e. length (snd e)) pl') =
         sum_list (map (\<lambda>e. length (snd e)) pl) + sum_list (map size_ship (s # rest))"
    using r5 placedAt_length [OF pa] unfolding pl1 by simp
  have s2: "map fst pl' = map fst pl @ map id_ship (s # rest)"
    using r2 unfolding pl1 by simp
  from r1 s2 s3 r3 s4 s5 show ?case by simp
qed

lemma SHIPS_ids: "map id_ship SHIPS = [''A'', ''B'', ''C'', ''D'', ''E'']"
  by (simp add: SHIPS_def)

lemma SHIPS_sizes: "map size_ship SHIPS = [5, 4, 3, 3, 2]"
  by (simp add: SHIPS_def)

lemma buildBoard_inv:
  assumes "buildBoard g i = Inr (b, pl, i')"
  shows "placeInv b pl" and "map fst pl = map id_ship SHIPS"
    and "\<forall>s\<in>set SHIPS. \<exists>coords. map_of pl (id_ship s) = Some coords \<and> length coords = size_ship s"
    and "countCells hasShip b = 17"
proof -
  have d: "distinct (map id_ship SHIPS)" by (simp add: SHIPS_ids)
  from assms have "buildBoard_loop g i createEmptyBoard [] SHIPS = Inr (b, pl, i')"
    by (simp add: buildBoard_def)
  from buildBoard_loop_inv [OF this placeInv_empty d] have
    r: "placeInv b pl" "map fst pl = map id_ship SHIPS"
      "\<forall>s\<in>set SHIPS. \<exists>coords. map_of pl (id_ship s) = Some coords \<and> length coords = size_ship s"
      "sum_list (map (\<lambda>e. length (snd e)) pl) = sum_list (map size_ship SHIPS)"
    by simp_all
  from r(1) have "countCells hasShip b = sum_list (map (\<lambda>e. length (snd e)) pl)"
    by (simp add: placeInv_def)
  with r(4) have "countCells hasShip b = 17" by (simp add: SHIPS_sizes)
  with r show "placeInv b pl" and "map fst pl = map id_ship SHIPS"
    and "\<forall>s\<in>set SHIPS. \<exists>coords. map_of pl (id_ship s) = Some coords \<and> length coords = size_ship s"
    and "countCells hasShip b = 17" by simp_all
qed

text \<open>
  Claim C4. Every board that \<open>buildBoard\<close> returns is 10 by 10 and has exactly 17 cells with
  \<open>hasShip\<close>; \<open>placements\<close> has one entry per catalogue ship, in catalogue order; the entry
  of a ship has as many coordinates as the ship's size, they are contiguous along one axis,
  and they are exactly the cells of the board that carry the ship's id; the entries of two
  different ships share no cell.
\<close>

theorem buildBoard_fleet:
  assumes "buildBoard g i = Inr (b, pl, i')"
  shows "boardOK b
    \<and> countCells hasShip b = 17
    \<and> map fst pl = map id_ship SHIPS
    \<and> (\<forall>s\<in>set SHIPS. \<exists>coords. map_of pl (id_ship s) = Some coords
          \<and> length coords = size_ship s \<and> contiguous coords
          \<and> (\<forall>r c. (r, c) \<in> set coords \<longleftrightarrow>
                (\<exists>x. cellAt b r c = Some x \<and> shipId x = Some (id_ship s))))
    \<and> (\<forall>s\<in>set SHIPS. \<forall>t\<in>set SHIPS. \<forall>cs ct.
          id_ship s \<noteq> id_ship t \<and> map_of pl (id_ship s) = Some cs \<and> map_of pl (id_ship t) = Some ct
          \<longrightarrow> set cs \<inter> set ct = {})"
proof -
  note r = buildBoard_inv [OF assms]
  from r(1) have ok: "boardOK b"
    and i3: "\<And>r c x sid. cellAt b r c = Some x \<Longrightarrow>
            (shipId x = Some sid \<longleftrightarrow> (\<exists>cs. map_of pl sid = Some cs \<and> (r, c) \<in> set cs))"
    and i4: "\<And>sid cs. map_of pl sid = Some cs \<Longrightarrow>
            contiguous cs \<and> (\<forall>p\<in>set cs. cellAt b (fst p) (snd p) \<noteq> None)"
    by (auto simp: placeInv_def)
  have own: "(r, c) \<in> set cs \<longleftrightarrow> (\<exists>x. cellAt b r c = Some x \<and> shipId x = Some sid)"
    if m: "map_of pl sid = Some cs" for sid cs r c
  proof
    assume in_cs: "(r, c) \<in> set cs"
    with i4 [OF m] obtain x where x: "cellAt b r c = Some x" by fastforce
    from i3 [OF x, of sid] m in_cs have "shipId x = Some sid" by auto
    with x show "\<exists>x. cellAt b r c = Some x \<and> shipId x = Some sid" by blast
  next
    assume "\<exists>x. cellAt b r c = Some x \<and> shipId x = Some sid"
    then obtain x where x: "cellAt b r c = Some x" "shipId x = Some sid" by blast
    from i3 [OF x(1), of sid] x(2) m show "(r, c) \<in> set cs" by auto
  qed
  have 4: "\<forall>s\<in>set SHIPS. \<exists>coords. map_of pl (id_ship s) = Some coords
          \<and> length coords = size_ship s \<and> contiguous coords
          \<and> (\<forall>r c. (r, c) \<in> set coords \<longleftrightarrow>
                (\<exists>x. cellAt b r c = Some x \<and> shipId x = Some (id_ship s)))"
  proof
    fix s assume "s \<in> set SHIPS"
    with r(3) obtain coords where c: "map_of pl (id_ship s) = Some coords" "length coords = size_ship s"
      by blast
    from i4 [OF c(1)] own [OF c(1)] c show "\<exists>coords. map_of pl (id_ship s) = Some coords
          \<and> length coords = size_ship s \<and> contiguous coords
          \<and> (\<forall>r c. (r, c) \<in> set coords \<longleftrightarrow>
                (\<exists>x. cellAt b r c = Some x \<and> shipId x = Some (id_ship s)))" by blast
  qed
  have 5: "set cs \<inter> set ct = {}"
    if "sid \<noteq> tid" "map_of pl sid = Some cs" "map_of pl tid = Some ct" for sid tid cs ct
  proof -
    { fix r c assume "(r, c) \<in> set cs" "(r, c) \<in> set ct"
      with own [OF that(2)] own [OF that(3)] that(1) have False by force }
    then show ?thesis by auto
  qed
  from ok r(4) r(2) 4 5 show ?thesis by blast
qed

theorem buildBoard_fleet_witness:
  "buildBoard demoRng 0 = Inr (demoBoard, demoPlacements, 17)
    \<and> boardOK demoBoard \<and> countCells hasShip demoBoard = 17
    \<and> map fst demoPlacements = [''A'', ''B'', ''C'', ''D'', ''E'']"
proof -
  have e: "buildBoard demoRng 0 = Inr (demoBoard, demoPlacements, 17)" by code_simp
  from buildBoard_fleet [OF e] e show ?thesis by (simp add: SHIPS_ids)
qed

lemma getShipCells_loop_eq:
  "getShipCells_loop b sid cs =
     (if \<forall>p\<in>set cs. cellAt b (fst p) (snd p) \<noteq> None then Inr (filter (ownedBy b sid) cs)
      else Inl TypeError)"
proof (induction cs)
  case Nil
  then show ?case by simp
next
  case (Cons p cs)
  obtain r c where p: "p = (r, c)" by (cases p)
  show ?case
  proof (cases "cellAt b r c")
    case None
    then show ?thesis by (simp add: p)
  next
    case (Some x)
    then have "ownedBy b sid (r, c) = (shipId x = sid)" by (simp add: ownedBy_def)
    then show ?thesis using Some Cons.IH by (simp add: p)
  qed
qed

lemma getShipCells_eq:
  "getShipCells b sid = (if gridIn b then Inr (filter (ownedBy b sid) gridCoords) else Inl TypeError)"
  by (simp add: getShipCells_def getShipCells_loop_eq gridIn_def list_all_iff)

lemma everyHit_eq:
  "\<forall>p\<in>set cs. cellAt b (fst p) (snd p) \<noteq> None \<Longrightarrow>
     everyHit b cs = Inr (\<forall>p\<in>set cs. hitAt b p)"
proof (induction cs)
  case Nil
  then show ?case by simp
next
  case (Cons p cs)
  obtain r c where p: "p = (r, c)" by (cases p)
  from Cons.prems obtain x where x: "cellAt b r c = Some x" by (auto simp: p)
  from Cons have "everyHit b cs = Inr (\<forall>p\<in>set cs. hitAt b p)" by simp
  then show ?case using x by (simp add: p hitAt_def)
qed

lemma isShipSunk_eq:
  "isShipSunk b sid = (if gridIn b then Inr (allHit b sid) else Inl TypeError)"
proof (cases "gridIn b")
  case False
  then show ?thesis by (simp add: isShipSunk_def getShipCells_eq)
next
  case True
  then have "\<forall>p\<in>set (filter (ownedBy b sid) gridCoords). cellAt b (fst p) (snd p) \<noteq> None"
    by (simp add: gridIn_def list_all_iff)
  from everyHit_eq [OF this] True show ?thesis
    by (auto simp: isShipSunk_def getShipCells_eq allHit_def list_all_iff)
qed

lemma markCells_ok:
  assumes "\<forall>p\<in>set cs. cellAt b (fst p) (snd p) \<noteq> None"
  shows "\<exists>b'. markCells b cs = Inr b' \<and> dims b' = dims b
     \<and> (\<forall>r c. cellAt b' r c =
           (if (r, c) \<in> set cs then map_option markSunk (cellAt b r c) else cellAt b r c))
     \<and> (\<forall>P. (\<forall>x. P (markSunk x) = P x) \<longrightarrow> countCells P b' = countCells P b)"
  using assms
proof (induction cs arbitrary: b)
  case Nil
  then show ?case by simp
next
  case (Cons p cs)
  obtain r c where p: "p = (r, c)" by (cases p)
  from Cons.prems obtain x where x: "cellAt b r c = Some x" by (auto simp: p)
  let ?b1 = "setCell b r c (markSunk x)"
  have c1: "cellAt ?b1 r' c' = (if (r', c') = (r, c) then Some (markSunk x) else cellAt b r' c')" for r' c'
    using cellAt_setCell [OF x] by simp
  have in1: "\<forall>q\<in>set cs. cellAt ?b1 (fst q) (snd q) \<noteq> None"
    using Cons.prems by (simp add: c1)
  from Cons.IH [OF in1] obtain b' where
    b': "markCells ?b1 cs = Inr b'" "dims b' = dims ?b1"
      "\<And>r' c'. cellAt b' r' c' =
         (if (r', c') \<in> set cs then map_option markSunk (cellAt ?b1 r' c') else cellAt ?b1 r' c')"
      "\<And>P. (\<forall>x. P (markSunk x) = P x) \<Longrightarrow> countCells P b' = countCells P ?b1"
    by blast
  have m: "markCells b (p # cs) = Inr b'" using x b'(1) by (simp add: p markSunk_def)
  have d: "dims b' = dims b" using b'(2) by simp
  have ca: "cellAt b' r' c' =
      (if (r', c') \<in> set (p # cs) then map_option markSunk (cellAt b r' c') else cellAt b r' c')" for r' c'
  proof (cases "(r', c') = (r, c)")
    case True
    have 1: "cellAt ?b1 r c = Some (markSunk x)" using cellAt_setCell [OF x] by simp
    have "cellAt b' r c = Some (markSunk x)" using b'(3) [of r c] 1 by (simp add: markSunk_def)
    then show ?thesis using True x by (simp add: p)
  next
    case False
    then have "cellAt ?b1 r' c' = cellAt b r' c'" by (auto simp: c1)
    then show ?thesis using False by (auto simp: b'(3) p)
  qed
  have cnt: "countCells P b' = countCells P b" if P: "\<forall>x. P (markSunk x) = P x" for P
  proof -
    have "countCells P ?b1 = countCells P b"
      using countCells_setCell [OF x, of P "markSunk x"] P by simp
    with b'(4) [OF P] show ?thesis by simp
  qed
  from m d ca cnt show ?case by blast
qed

lemma markShipSunk_ok:
  assumes "gridIn b"
  shows "\<exists>b'. markShipSunk b sid = Inr b' \<and> dims b' = dims b
     \<and> (\<forall>r c. cellAt b' r c =
           (if (r, c) \<in> set gridCoords \<and> ownedBy b sid (r, c) then map_option markSunk (cellAt b r c)
            else cellAt b r c))
     \<and> (\<forall>P. (\<forall>x. P (markSunk x) = P x) \<longrightarrow> countCells P b' = countCells P b)"
proof -
  from assms have "\<forall>p\<in>set (filter (ownedBy b sid) gridCoords). cellAt b (fst p) (snd p) \<noteq> None"
    by (simp add: gridIn_def list_all_iff)
  from markCells_ok [OF this] show ?thesis using assms
    by (simp add: markShipSunk_def getShipCells_eq)
qed

text \<open>What \<open>updateAfterHit\<close> returns, when it returns.\<close>

lemma updateAfterHit_Inr:
  assumes "updateAfterHit nb sid cnt = Inr (js, b', cnt')"
  shows "js = (truthy sid \<and> allHit nb sid)
    \<and> cnt' = (if js then cnt + 1 else cnt)
    \<and> dims b' = dims nb
    \<and> (\<forall>r c. cellAt b' r c =
           (if js \<and> (r, c) \<in> set gridCoords \<and> ownedBy nb sid (r, c) then map_option markSunk (cellAt nb r c)
            else cellAt nb r c))
    \<and> (\<forall>P. (\<forall>x. P (markSunk x) = P x) \<longrightarrow> countCells P b' = countCells P nb)"
proof (cases "truthy sid")
  case False
  with assms show ?thesis
    by (auto simp: updateAfterHit_def truthy_def)
next
  case True
  then have t: "\<not> (sid = None \<or> sid = Some [])" by (simp add: truthy_def)
  from assms t have g: "gridIn nb"
    by (auto simp: updateAfterHit_def isShipSunk_eq split: if_splits)
  show ?thesis
  proof (cases "allHit nb sid")
    case False
    with assms t g True show ?thesis
      by (auto simp: updateAfterHit_def isShipSunk_eq)
  next
    case ah: True
    from markShipSunk_ok [OF g, of sid] obtain bb where
      bb: "markShipSunk nb sid = Inr bb" "dims bb = dims nb"
        "\<forall>r c. cellAt bb r c =
         (if (r, c) \<in> set gridCoords \<and> ownedBy nb sid (r, c) then map_option markSunk (cellAt nb r c)
          else cellAt nb r c)"
        "\<forall>P. (\<forall>x. P (markSunk x) = P x) \<longrightarrow> countCells P bb = countCells P nb"
      by blast
    from assms t g ah bb(1) have "js" "b' = bb" "cnt' = cnt + 1"
      by (simp_all add: updateAfterHit_def isShipSunk_eq)
    with bb True ah show ?thesis by simp
  qed
qed

lemma updateAfterHit_total:
  "gridIn nb \<Longrightarrow> \<exists>js b' cnt'. updateAfterHit nb sid cnt = Inr (js, b', cnt')"
  using markShipSunk_ok [of nb sid]
  by (auto simp: updateAfterHit_def isShipSunk_eq)

lemma applyShot_rejected: "rejected st r c \<Longrightarrow> applyShot st r c = Inr (unchanged st)"
  by (auto simp: rejected_def applyShot_def split: option.splits)

lemma handleShot_rejected: "rejected st r c \<Longrightarrow> handleShot st r c = Inr st"
  by (simp add: handleShot_def applyShot_rejected unchanged_def)

lemma click_rejected: "rejected st r c \<Longrightarrow> click st r c = Inr st"
  by (simp add: click_def handleShot_rejected)

lemma handleShot_TypeError:
  "\<not> gameOver st \<Longrightarrow> cellAt (board st) r c = None \<Longrightarrow> handleShot st r c = Inl TypeError"
  by (simp add: handleShot_def applyShot_def)

lemma handleShot_miss:
  assumes "\<not> gameOver st" "cellAt (board st) r c = Some x" "\<not> hit x" "\<not> hasShip x"
  shows "handleShot st r c =
     Inr (st\<lparr>shots := shots st + 1, board := setCell (board st) r c (x\<lparr>hit := True\<rparr>)\<rparr>)"
  using assms by (simp add: handleShot_def applyShot_def Let_def)

lemma handleShot_hit:
  assumes "\<not> gameOver st" "cellAt (board st) r c = Some x" "\<not> hit x" "hasShip x"
  shows "handleShot st r c =
     (case updateAfterHit (setCell (board st) r c (x\<lparr>hit := True\<rparr>)) (shipId x) (sunkCount st) of
        Inl e \<Rightarrow> Inl e
      | Inr (js, b', cnt) \<Rightarrow>
          Inr (st\<lparr>shots := shots st + 1, hits := hits st + 1, board := b', sunkCount := cnt\<rparr>))"
  using assms by (simp add: handleShot_def applyShot_def Let_def split: sum.splits prod.splits)

lemma afterShot_plain: "afterShot (r, c) False sid (r, c) x = x\<lparr>hit := True\<rparr>"
  by (simp add: afterShot_def)

lemma afterShot_other: "p \<noteq> t \<Longrightarrow> afterShot t False sid p y = y"
  by (simp add: afterShot_def)

lemma afterShot_sunk:
  "afterShot t js sid p y =
     (if js \<and> p \<in> set gridCoords \<and> shipId y = sid then markSunk (afterShot t False sid p y)
      else afterShot t False sid p y)"
  by (cases y) (auto simp: afterShot_def markSunk_def)

text \<open>The board and the counters after a shot that is not rejected.\<close>

lemma handleShot_frame:
  assumes hs: "handleShot st r c = Inr st'" and nr: "\<not> rejected st r c"
  shows "\<exists>x. cellAt (board st) r c = Some x \<and> \<not> hit x \<and> \<not> gameOver st
    \<and> dims (board st') = dims (board st)
    \<and> (\<forall>r' c'. cellAt (board st') r' c' =
          map_option (afterShot (r, c) (justSunk (board st) r c x) (shipId x) (r', c'))
            (cellAt (board st) r' c'))
    \<and> (\<forall>P. (\<forall>y. P (markSunk y) = P y) \<longrightarrow>
          countCells P (board st') + (if P x then 1 else 0) =
          countCells P (board st) + (if P (x\<lparr>hit := True\<rparr>) then 1 else 0))
    \<and> shots st' = shots st + 1
    \<and> hits st' = hits st + (if hasShip x then 1 else 0)
    \<and> sunkCount st' = sunkCount st + (if justSunk (board st) r c x then 1 else 0)
    \<and> gameOver st' = gameOver st \<and> placements st' = placements st \<and> reveal st' = reveal st"
proof -
  from nr have ng: "\<not> gameOver st" by (simp add: rejected_def)
  from hs ng obtain x where x: "cellAt (board st) r c = Some x"
    using handleShot_TypeError [of st r c] by (cases "cellAt (board st) r c") auto
  from nr x have nh: "\<not> hit x" by (simp add: rejected_def)
  let ?nb = "setCell (board st) r c (x\<lparr>hit := True\<rparr>)"
  have nbc: "cellAt ?nb r' c' = (if r' = r \<and> c' = c then Some (x\<lparr>hit := True\<rparr>) else cellAt (board st) r' c')"
    for r' c' using x by (rule cellAt_setCell)
  have nbm: "cellAt ?nb r' c' = map_option (afterShot (r, c) False (shipId x) (r', c')) (cellAt (board st) r' c')"
    for r' c'
  proof (cases "r' = r \<and> c' = c")
    case True
    then show ?thesis using x by (simp add: nbc afterShot_plain)
  next
    case False
    then have "(r', c') \<noteq> (r, c)" by simp
    then have "map_option (afterShot (r, c) False (shipId x) (r', c')) (cellAt (board st) r' c') =
        cellAt (board st) r' c'"
      by (cases "cellAt (board st) r' c'") (simp_all add: afterShot_other)
    moreover have "cellAt ?nb r' c' = cellAt (board st) r' c'" using False by (auto simp: nbc)
    ultimately show ?thesis by simp
  qed
  have nbcnt: "countCells P ?nb + (if P x then 1 else 0) =
      countCells P (board st) + (if P (x\<lparr>hit := True\<rparr>) then 1 else 0)" for P
    using x by (rule countCells_setCell)
  show ?thesis
  proof (cases "hasShip x")
    case False
    then have js: "\<not> justSunk (board st) r c x" by (simp add: justSunk_def)
    from handleShot_miss [OF ng x nh False] hs
    have st': "st' = st\<lparr>shots := shots st + 1, board := ?nb\<rparr>" by simp
    show ?thesis
      using x nh ng False nbm nbcnt by (simp add: st' js)
  next
    case True
    from handleShot_hit [OF ng x nh True] hs obtain js b' cnt where
      u: "updateAfterHit ?nb (shipId x) (sunkCount st) = Inr (js, b', cnt)"
      and st': "st' = st\<lparr>shots := shots st + 1, hits := hits st + 1, board := b', sunkCount := cnt\<rparr>"
      by (auto split: sum.splits)
    note r = updateAfterHit_Inr [OF u]
    from r True have js: "js = justSunk (board st) r c x" by (simp add: justSunk_def)
    from r have cnt: "cnt = (if js then sunkCount st + 1 else sunkCount st)" by simp
    from r have d: "dims b' = dims (board st)" by simp
    from r have bc: "\<And>r' c'. cellAt b' r' c' =
           (if js \<and> (r', c') \<in> set gridCoords \<and> ownedBy ?nb (shipId x) (r', c')
            then map_option markSunk (cellAt ?nb r' c') else cellAt ?nb r' c')" by simp
    from r have pc: "\<And>P. (\<forall>y. P (markSunk y) = P y) \<Longrightarrow> countCells P b' = countCells P ?nb" by simp
    have cells: "cellAt b' r' c' =
          map_option (afterShot (r, c) js (shipId x) (r', c')) (cellAt (board st) r' c')" for r' c'
    proof (cases "cellAt (board st) r' c'")
      case None
      then have "cellAt ?nb r' c' = None" by (simp add: nbm)
      then show ?thesis using None by (simp add: bc)
    next
      case (Some y)
      have n: "cellAt ?nb r' c' = Some (afterShot (r, c) False (shipId x) (r', c') y)"
        using Some by (simp add: nbm)
      then have o: "ownedBy ?nb (shipId x) (r', c') = (shipId y = shipId x)"
        by (simp add: ownedBy_def afterShot_def)
      show ?thesis unfolding bc n o Some
        by (simp add: afterShot_sunk [of "(r, c)" js "shipId x" "(r', c')" y])
    qed
    have count: "countCells P b' + (if P x then 1 else 0) =
          countCells P (board st) + (if P (x\<lparr>hit := True\<rparr>) then 1 else 0)"
      if "\<forall>y. P (markSunk y) = P y" for P
      using pc [OF that] nbcnt [of P] by simp
    show ?thesis
      using x nh ng True d cells count cnt by (simp add: st' js)
  qed
qed

lemma boardOK_gridIn: "boardOK b \<Longrightarrow> gridIn b"
  using boardOK_cellAt [of b] by (auto simp: gridIn_def list_all_iff set_gridCoords)

lemma boardOK_setCell: "boardOK (setCell b r c x) = boardOK b"
  by (rule boardOK_dims) simp

lemma gridCoords_cellAt: "boardOK b \<Longrightarrow> cellAt b r c = Some x \<Longrightarrow> (r, c) \<in> set gridCoords"
  using boardOK_cellAt [of b r c] by (simp add: set_gridCoords)

lemma cellAt_iff_mem: "(\<exists>r c. cellAt b r c = Some x) \<longleftrightarrow> (\<exists>row\<in>set b. x \<in> set row)"
proof
  assume "\<exists>r c. cellAt b r c = Some x"
  then obtain r c where "cellAt b r c = Some x" by blast
  from cellAt_SomeD [OF this] show "\<exists>row\<in>set b. x \<in> set row"
    by (meson nth_mem)
next
  assume "\<exists>row\<in>set b. x \<in> set row"
  then obtain i j where "i < length b" "j < length (b ! i)" "x = b ! i ! j"
    by (metis in_set_conv_nth)
  then have "cellAt b (int i) (int j) = Some x" by (simp add: cellAt_nth)
  then show "\<exists>r c. cellAt b r c = Some x" by blast
qed

lemma cellInv_iff:
  "cellInv b \<longleftrightarrow> (\<forall>r c x. cellAt b r c = Some x \<longrightarrow> hasShip x = (shipId x \<noteq> None))"
  unfolding cellInv_def list_all_iff using cellAt_iff_mem [of b] by blast

lemma rejected_after:
  assumes "handleShot st r c = Inr st'"
  shows "rejected st' r c"
proof (cases "rejected st r c")
  case True
  with assms show ?thesis by (simp add: handleShot_rejected)
next
  case False
  from handleShot_frame [OF assms False] obtain x where
    x: "cellAt (board st) r c = Some x"
    and c: "\<forall>r' c'. cellAt (board st') r' c' =
          map_option (afterShot (r, c) (justSunk (board st) r c x) (shipId x) (r', c'))
            (cellAt (board st) r' c')"
    by blast
  from c x have "cellAt (board st') r c = Some (afterShot (r, c) (justSunk (board st) r c x) (shipId x) (r, c) x)"
    by simp
  then show ?thesis by (simp add: rejected_def afterShot_def)
qed

lemma rejected_gameOverEffect: "rejected st r c \<Longrightarrow> rejected (gameOverEffect st) r c"
  by (simp add: rejected_def gameOverEffect_def)

text \<open>
  Claim C3. A shot at a cell that is already hit, or any shot once the game is over, is
  rejected: \<open>applyShot\<close> answers \<open>changed = false\<close> with the board it was given, and the
  state after \<open>handleShot\<close> and after the whole click is the state before, so the board and
  the counters \<open>shots\<close>, \<open>hits\<close> and \<open>sunkCount\<close> are unchanged. A second click on a cell
  whose first click returned is rejected in this way.
\<close>

theorem rejected_shot_changes_nothing:
  "(gameOver st \<or> (\<exists>x. cellAt (board st) r c = Some x \<and> hit x) \<longrightarrow>
      applyShot st r c = Inr \<lparr>changed = False, board_of = board st, wasHit = False, shipId_of = None\<rparr>
      \<and> handleShot st r c = Inr st \<and> click st r c = Inr st)
   \<and> (click st r c = Inr st1 \<longrightarrow>
      applyShot st1 r c = Inr \<lparr>changed = False, board_of = board st1, wasHit = False, shipId_of = None\<rparr>
      \<and> handleShot st1 r c = Inr st1 \<and> click st1 r c = Inr st1)"
proof -
  have rej: "applyShot s r c = Inr \<lparr>changed = False, board_of = board s, wasHit = False, shipId_of = None\<rparr>
      \<and> handleShot s r c = Inr s \<and> click s r c = Inr s" if "rejected s r c" for s
    using that applyShot_rejected handleShot_rejected click_rejected
    by (simp add: unchanged_def)
  have 1: "rejected st r c" if "gameOver st \<or> (\<exists>x. cellAt (board st) r c = Some x \<and> hit x)"
    using that by (auto simp: rejected_def)
  have 2: "rejected st1 r c" if "click st r c = Inr st1"
  proof -
    from that obtain st' where h: "handleShot st r c = Inr st'"
      and s: "st1 = (if hits st' \<noteq> hits st then gameOverEffect st' else st')"
      by (auto simp: click_def split: sum.splits)
    from rejected_after [OF h] show ?thesis unfolding s
      by (simp add: rejected_gameOverEffect)
  qed
  from rej 1 2 show ?thesis by blast
qed

theorem rejected_shot_changes_nothing_witness:
  "click demoGame 4 5 = Inr demoHit
   \<and> (\<exists>x. cellAt (board demoHit) 4 5 = Some x \<and> hit x)
   \<and> handleShot demoHit 4 5 = Inr demoHit \<and> click demoHit 4 5 = Inr demoHit
   \<and> shots demoHit = 1 \<and> hits demoHit = 1"
proof -
  have a: "click demoGame 4 5 = Inr demoHit" by code_simp
  have b: "case cellAt (board demoHit) 4 5 of None \<Rightarrow> False | Some x \<Rightarrow> hit x" by code_simp
  then have c: "\<exists>x. cellAt (board demoHit) 4 5 = Some x \<and> hit x"
    by (cases "cellAt (board demoHit) 4 5") simp_all
  have d: "shots demoHit = 1 \<and> hits demoHit = 1" by code_simp
  from rejected_shot_changes_nothing [of demoHit 4 5 demoHit] a c d show ?thesis by simp
qed

text \<open>
  Claim C7. An accepted shot on a 10 by 10 board returns, and in the board it stores every
  cell keeps \<open>hasShip\<close> and \<open>shipId\<close>; \<open>hit\<close> changes at the target only, where it is set;
  \<open>sunk\<close> changes only when the shot sinks the ship of the target, and then it is set on
  exactly the cells that carry that ship's id.
\<close>

theorem accepted_shot_frame:
  assumes "boardOK (board st)" and "\<not> gameOver st"
    and "cellAt (board st) r c = Some x" and "\<not> hit x"
  shows "\<exists>st'. handleShot st r c = Inr st'
    \<and> map length (board st') = map length (board st)
    \<and> (\<forall>r' c' y. cellAt (board st) r' c' = Some y \<longrightarrow>
          (\<exists>y'. cellAt (board st') r' c' = Some y'
             \<and> hasShip y' = hasShip y \<and> shipId y' = shipId y
             \<and> hit y' = (hit y \<or> (r', c') = (r, c))
             \<and> sunk y' = (sunk y \<or> (justSunk (board st) r c x \<and> shipId y = shipId x))))"
proof -
  let ?nb = "setCell (board st) r c (x\<lparr>hit := True\<rparr>)"
  have nr: "\<not> rejected st r c" using assms by (simp add: rejected_def)
  have "gridIn ?nb" using assms(1) by (intro boardOK_gridIn) (simp add: boardOK_setCell)
  from updateAfterHit_total [OF this] obtain js b' cnt where
    "updateAfterHit ?nb (shipId x) (sunkCount st) = Inr (js, b', cnt)" by blast
  then obtain st' where h: "handleShot st r c = Inr st'"
    using handleShot_hit [OF assms(2-4)] handleShot_miss [OF assms(2-4)]
    by (cases "hasShip x") simp_all
  from handleShot_frame [OF h nr] assms(3) have
    d: "dims (board st') = dims (board st)"
    and cs: "\<And>r' c'. cellAt (board st') r' c' =
          map_option (afterShot (r, c) (justSunk (board st) r c x) (shipId x) (r', c'))
            (cellAt (board st) r' c')"
    by auto
  have "\<exists>y'. cellAt (board st') r' c' = Some y'
             \<and> hasShip y' = hasShip y \<and> shipId y' = shipId y
             \<and> hit y' = (hit y \<or> (r', c') = (r, c))
             \<and> sunk y' = (sunk y \<or> (justSunk (board st) r c x \<and> shipId y = shipId x))"
    if y: "cellAt (board st) r' c' = Some y" for r' c' y
  proof -
    have "(r', c') \<in> set gridCoords" using assms(1) y by (rule gridCoords_cellAt)
    then show ?thesis using y by (simp add: cs afterShot_def)
  qed
  with h d show ?thesis unfolding dims_def by blast
qed

theorem accepted_shot_frame_witness:
  "boardOK (board demoGame) \<and> \<not> gameOver demoGame
   \<and> (\<exists>x. cellAt (board demoGame) 4 5 = Some x \<and> \<not> hit x)
   \<and> (\<exists>st'. handleShot demoGame 4 5 = Inr st'
        \<and> map length (board st') = map length (board demoGame))"
proof -
  have a: "boardOK (board demoGame)" by code_simp
  have b: "\<not> gameOver demoGame" by code_simp
  have "case cellAt (board demoGame) 4 5 of None \<Rightarrow> False | Some x \<Rightarrow> \<not> hit x" by code_simp
  then obtain x where c: "cellAt (board demoGame) 4 5 = Some x" "\<not> hit x"
    by (cases "cellAt (board demoGame) 4 5") simp_all
  from accepted_shot_frame [OF a b c] a b c show ?thesis by blast
qed

lemma cellsGrow_refl: "cellsGrow b b"
  by (simp add: cellsGrow_def)

lemma cellsGrow_trans: "cellsGrow b b' \<Longrightarrow> cellsGrow b' b'' \<Longrightarrow> cellsGrow b b''"
  unfolding cellsGrow_def by (metis (full_types))

lemma board_gameOverEffect [simp]:
  "board (gameOverEffect st) = board st" "shots (gameOverEffect st) = shots st"
  "hits (gameOverEffect st) = hits st" "sunkCount (gameOverEffect st) = sunkCount st"
  "placements (gameOverEffect st) = placements st"
  by (simp_all add: gameOverEffect_def)

lemma handleShot_mono:
  assumes "handleShot st r c = Inr st'"
  shows "shots st \<le> shots st' \<and> hits st \<le> hits st' \<and> sunkCount st \<le> sunkCount st'
    \<and> gameOver st' = gameOver st \<and> cellsGrow (board st) (board st')"
proof (cases "rejected st r c")
  case True
  with assms show ?thesis by (simp add: handleShot_rejected cellsGrow_refl)
next
  case False
  from handleShot_frame [OF assms False] obtain x where
    "\<forall>r' c'. cellAt (board st') r' c' =
          map_option (afterShot (r, c) (justSunk (board st) r c x) (shipId x) (r', c'))
            (cellAt (board st) r' c')"
    and "shots st' = shots st + 1"
    and "hits st' = hits st + (if hasShip x then 1 else 0)"
    and "sunkCount st' = sunkCount st + (if justSunk (board st) r c x then 1 else 0)"
    and "gameOver st' = gameOver st"
    by blast
  then show ?thesis by (simp add: cellsGrow_def afterShot_def)
qed

lemma click_mono:
  assumes "click st r c = Inr st'"
  shows "shots st \<le> shots st' \<and> hits st \<le> hits st' \<and> sunkCount st \<le> sunkCount st'
    \<and> (gameOver st \<longrightarrow> gameOver st') \<and> cellsGrow (board st) (board st')"
proof -
  from assms obtain s1 where h: "handleShot st r c = Inr s1"
    and s: "st' = (if hits s1 \<noteq> hits st then gameOverEffect s1 else s1)"
    by (auto simp: click_def split: sum.splits)
  from handleShot_mono [OF h] show ?thesis unfolding s
    by (auto simp: gameOverEffect_def)
qed

lemma handleShot_dims: "handleShot st r c = Inr st' \<Longrightarrow> dims (board st') = dims (board st)"
  using handleShot_frame [of st r c st'] handleShot_rejected [of st r c]
  by (cases "rejected st r c") auto

lemma click_dims: "click st r c = Inr st' \<Longrightarrow> dims (board st') = dims (board st)"
  by (auto simp: click_def split: sum.splits if_splits dest: handleShot_dims)

lemma play_grow:
  assumes "play st cs = Inr st'"
  shows "shots st \<le> shots st' \<and> hits st \<le> hits st' \<and> sunkCount st \<le> sunkCount st'
    \<and> cellsGrow (board st) (board st') \<and> dims (board st') = dims (board st)"
  using assms
proof (induction cs arbitrary: st)
  case Nil
  then show ?case by (simp add: cellsGrow_refl)
next
  case (Cons p cs)
  obtain r c where p: "p = (r, c)" by (cases p)
  from Cons.prems obtain s1 where c1: "click st r c = Inr s1" and rest: "play s1 cs = Inr st'"
    by (auto simp: p split: sum.splits)
  from click_mono [OF c1] click_dims [OF c1] Cons.IH [OF rest] show ?case
    by (auto intro: cellsGrow_trans)
qed

text \<open>
  Claim C8. Along any sequence of clicks, with no reset between them, the counters
  \<open>shots\<close>, \<open>hits\<close> and \<open>sunkCount\<close> never decrease, and a cell that is hit stays hit and a
  cell that is sunk stays sunk.
\<close>

theorem play_monotone:
  assumes "play st cs = Inr st'"
  shows "shots st \<le> shots st' \<and> hits st \<le> hits st' \<and> sunkCount st \<le> sunkCount st'
    \<and> (\<forall>r c y. cellAt (board st) r c = Some y \<longrightarrow>
          (\<exists>y'. cellAt (board st') r c = Some y' \<and> (hit y \<longrightarrow> hit y') \<and> (sunk y \<longrightarrow> sunk y')))"
  using play_grow [OF assms] unfolding cellsGrow_def by blast

theorem play_monotone_witness:
  "\<exists>st'. play demoGame [(4, 5), (0, 0), (4, 5), (4, 6)] = Inr st'
     \<and> shots demoGame \<le> shots st' \<and> hits demoGame \<le> hits st' \<and> sunkCount demoGame \<le> sunkCount st'
     \<and> shots st' = 3 \<and> hits st' = 2"
proof -
  have "succeeded (play demoGame [(4, 5), (0, 0), (4, 5), (4, 6)])" by code_simp
  then obtain st' where e: "play demoGame [(4, 5), (0, 0), (4, 5), (4, 6)] = Inr st'"
    by (auto dest: succeededE)
  have "case play demoGame [(4, 5), (0, 0), (4, 5), (4, 6)] of Inl e \<Rightarrow> False
        | Inr s \<Rightarrow> shots s = 3 \<and> hits s = 2" by code_simp
  with e have "shots st' = 3 \<and> hits st' = 2" by simp
  with play_monotone [OF e] e show ?thesis by blast
qed

lemma placedAt_cellInv:
  assumes "placedAt b s r0 c0 d coords b'" and "cellInv b"
  shows "cellInv b'"
  unfolding cellInv_iff
proof (intro allI impI)
  fix r c x assume x: "cellAt b' r c = Some x"
  from assms(1) have ca: "cellAt b' r c =
      (if (r, c) \<in> set coords then map_option (markShip s) (cellAt b r c) else cellAt b r c)"
    by (simp add: placedAt_def)
  show "hasShip x = (shipId x \<noteq> None)"
  proof (cases "(r, c) \<in> set coords")
    case True
    with x ca obtain y where "x = markShip s y" by auto
    then show ?thesis by (simp add: markShip_def)
  next
    case False
    with x ca have "cellAt b r c = Some x" by simp
    with assms(2) show ?thesis unfolding cellInv_iff by blast
  qed
qed

lemma cellsGrow_cellInv:
  assumes "cellsGrow b b'" and "dims b' = dims b" and "cellInv b"
  shows "cellInv b'"
  unfolding cellInv_iff
proof (intro allI impI)
  fix r c x assume x: "cellAt b' r c = Some x"
  with cellAt_dims_cong [OF assms(2), of r c] obtain y where y: "cellAt b r c = Some y" by auto
  with assms(1) obtain y' where "cellAt b' r c = Some y'" "hasShip y' = hasShip y" "shipId y' = shipId y"
    unfolding cellsGrow_def by blast
  with x have "hasShip x = hasShip y" "shipId x = shipId y" by simp_all
  with assms(3) y show "hasShip x = (shipId x \<noteq> None)" unfolding cellInv_iff by auto
qed

lemma buildBoard_cellInv: "buildBoard g i = Inr (b, pl, i') \<Longrightarrow> cellInv b"
  using buildBoard_inv(1) [of g i b pl i'] unfolding cellInv_iff placeInv_def by blast

text \<open>
  Claim C10. \<open>hasShip\<close> holds of a cell exactly when its \<open>shipId\<close> is not \<open>null\<close>: in the
  empty board, after \<open>placeShip\<close>, in the board of \<open>buildBoard\<close> and of the initial state,
  after every click (which leaves both fields of every cell as they were) and after
  \<open>resetGame\<close>.
\<close>

theorem hasShip_iff_shipId:
  "cellInv createEmptyBoard
   \<and> (cellInv b \<and> placeShip g i b s = Inr (coords, b', i') \<longrightarrow> cellInv b')
   \<and> (buildBoard g i = Inr (b0, pl, i0) \<longrightarrow> cellInv b0)
   \<and> (newGame g i = Inr (st0, i0) \<longrightarrow> cellInv (board st0))
   \<and> (click st r c = Inr st' \<longrightarrow>
        (\<forall>r' c' y. cellAt (board st) r' c' = Some y \<longrightarrow>
           (\<exists>y'. cellAt (board st') r' c' = Some y' \<and> hasShip y' = hasShip y \<and> shipId y' = shipId y))
        \<and> (cellInv (board st) \<longrightarrow> cellInv (board st')))
   \<and> (resetGame g i st = Inr (st1, i1) \<longrightarrow> cellInv (board st1))"
proof -
  have 1: "cellInv createEmptyBoard"
    by (simp add: cellInv_def createEmptyBoard_def emptyCell_def list_all_iff)
  have 2: "cellInv b'" if "cellInv b" "placeShip g i b s = Inr (coords, b', i')"
    using placeShip_Inr [OF that(2)] placedAt_cellInv that(1) by blast
  have 3: "cellInv b0" if "buildBoard g i = Inr (b0, pl, i0)"
    using that by (rule buildBoard_cellInv)
  have 4: "cellInv (board st0)" if "newGame g i = Inr (st0, i0)"
    using that buildBoard_cellInv [of g i]
    by (auto simp: newGame_def freshSession_def split: sum.splits)
  have 5: "(\<forall>r' c' y. cellAt (board st) r' c' = Some y \<longrightarrow>
           (\<exists>y'. cellAt (board st') r' c' = Some y' \<and> hasShip y' = hasShip y \<and> shipId y' = shipId y))
        \<and> (cellInv (board st) \<longrightarrow> cellInv (board st'))" if "click st r c = Inr st'"
  proof -
    from click_mono [OF that] have g: "cellsGrow (board st) (board st')" by simp
    from g click_dims [OF that] have "cellInv (board st) \<longrightarrow> cellInv (board st')"
      using cellsGrow_cellInv by blast
    with g show ?thesis unfolding cellsGrow_def by blast
  qed
  have 6: "cellInv (board st1)" if "resetGame g i st = Inr (st1, i1)"
    using that buildBoard_cellInv [of g i]
    by (auto simp: resetGame_def Let_def split: sum.splits if_splits)
  from 1 2 3 4 5 6 show ?thesis by blast
qed

theorem hasShip_iff_shipId_witness:
  "cellInv createEmptyBoard
   \<and> (\<exists>coords b' i'. placeShip demoRng 0 createEmptyBoard demoShip = Inr (coords, b', i') \<and> cellInv b')
   \<and> buildBoard demoRng 0 = Inr (demoBoard, demoPlacements, 17) \<and> cellInv demoBoard
   \<and> newGame demoRng 0 = Inr (demoGame, 17) \<and> cellInv (board demoGame)
   \<and> click demoGame 4 5 = Inr demoHit \<and> cellInv (board demoHit)
   \<and> (\<exists>st1. resetGame demoRng 0 demoGame = Inr (st1, 17) \<and> cellInv (board st1))"
proof -
  have "succeeded (placeShip demoRng 0 createEmptyBoard demoShip)" by code_simp
  then obtain coords b' i' where a: "placeShip demoRng 0 createEmptyBoard demoShip = Inr (coords, b', i')"
    by (auto dest: succeededE)
  have b: "buildBoard demoRng 0 = Inr (demoBoard, demoPlacements, 17)" by code_simp
  have c: "newGame demoRng 0 = Inr (demoGame, 17)" by code_simp
  have d: "click demoGame 4 5 = Inr demoHit" by code_simp
  have "case resetGame demoRng 0 demoGame of Inl e \<Rightarrow> False | Inr (s, j) \<Rightarrow> j = 17" by code_simp
  then obtain st1 where f: "resetGame demoRng 0 demoGame = Inr (st1, 17)"
    by (cases "resetGame demoRng 0 demoGame") auto
  note t = hasShip_iff_shipId [where b = createEmptyBoard and g = demoRng and i = 0 and s = demoShip
      and coords = coords and b' = b' and i' = i' and ?b0.0 = demoBoard and pl = demoPlacements
      and ?i0.0 = 17 and ?st0.0 = demoGame and st = demoGame and r = 4 and c = 5 and st' = demoHit
      and ?st1.0 = st1 and ?i1.0 = 17]
  from t a b c d f show ?thesis by simp
qed

lemma totalShipCells_17: "totalShipCells = 17"
  by (simp add: totalShipCells_def SHIPS_def)


lemma setCell_afterShot:
  assumes x: "cellAt b r c = Some x"
  shows "cellAt (setCell b r c (x\<lparr>hit := True\<rparr>)) r' c' =
         map_option (afterShot (r, c) False sid (r', c')) (cellAt b r' c')"
proof (cases "r' = r \<and> c' = c")
  case True
  then show ?thesis using x by (simp add: cellAt_setCell [OF x] afterShot_plain)
next
  case False
  then have "(r', c') \<noteq> (r, c)" by simp
  then have "map_option (afterShot (r, c) False sid (r', c')) (cellAt b r' c') = cellAt b r' c'"
    by (cases "cellAt b r' c'") (simp_all add: afterShot_other)
  moreover have "cellAt (setCell b r c (x\<lparr>hit := True\<rparr>)) r' c' = cellAt b r' c'"
    using False by (auto simp: cellAt_setCell [OF x])
  ultimately show ?thesis by simp
qed

lemma allHit_afterShot:
  assumes "\<And>r' c'. cellAt b' r' c' = map_option (afterShot t js sid (r', c')) (cellAt b r' c')"
  shows "allHit b' s = list_all (\<lambda>p. ownedBy b s p \<longrightarrow> hitAt b p \<or> p = t) gridCoords"
proof -
  have "(ownedBy b' s p \<longrightarrow> hitAt b' p) = (ownedBy b s p \<longrightarrow> hitAt b p \<or> p = t)" for p
  proof (cases "cellAt b (fst p) (snd p)")
    case None
    then show ?thesis using assms [of "fst p" "snd p"] by (simp add: ownedBy_def hitAt_def)
  next
    case (Some y)
    then show ?thesis using assms [of "fst p" "snd p"]
      by (simp add: ownedBy_def hitAt_def afterShot_def)
  qed
  then show ?thesis by (simp add: allHit_def)
qed

lemma allHit_plain: "allHit b s = list_all (\<lambda>p. ownedBy b s p \<longrightarrow> hitAt b p) gridCoords"
  by (simp add: allHit_def)

lemma countCells_zero:
  assumes "\<And>r c x. cellAt b r c = Some x \<Longrightarrow> \<not> P x"
  shows "countCells P b = 0"
proof -
  have "\<not> P x" if "x \<in> set (concat b)" for x
  proof -
    from that have "\<exists>row\<in>set b. x \<in> set row" by auto
    then obtain r c where "cellAt b r c = Some x" using cellAt_iff_mem [of b x] by blast
    then show ?thesis by (rule assms)
  qed
  then show ?thesis by (simp add: countCells_def filter_empty_conv)
qed

lemma length_filter_mono: "(\<And>x. P x \<Longrightarrow> Q x) \<Longrightarrow> length (filter P xs) \<le> length (filter Q xs)"
  by (induction xs) auto

lemma countCells_mono: "(\<And>x. P x \<Longrightarrow> Q x) \<Longrightarrow> countCells P b \<le> countCells Q b"
  unfolding countCells_def by (rule length_filter_mono)

lemma gameInv_hits_le: "gameInv st \<Longrightarrow> hits st \<le> 17"
proof -
  assume g: "gameInv st"
  have "countCells (\<lambda>x. hasShip x \<and> hit x) (board st) \<le> countCells hasShip (board st)"
    by (rule countCells_mono) simp
  with g show ?thesis by (simp add: gameInv_def totalShipCells_17)
qed

lemma gameInv_gameOver: "gameInv st \<Longrightarrow> gameOver st = (hits st = 17)"
  using gameInv_hits_le [of st] by (auto simp: gameInv_def totalShipCells_17)

lemma gameInv_fresh:
  assumes "buildBoard g i = Inr (b, pl, i')"
  shows "gameInv (gameOverEffect (freshSession b pl))"
proof -
  note r = buildBoard_inv [OF assms]
  from r(1) have ok: "boardOK b"
    and i2: "\<And>r c x. cellAt b r c = Some x \<Longrightarrow> \<not> hit x \<and> \<not> sunk x \<and> (hasShip x \<longleftrightarrow> shipId x \<noteq> None)"
    and i3: "\<And>r c x sid. cellAt b r c = Some x \<Longrightarrow>
            (shipId x = Some sid \<longleftrightarrow> (\<exists>cs. map_of pl sid = Some cs \<and> (r, c) \<in> set cs))"
    by (auto simp: placeInv_def)
  have eff: "gameOverEffect (freshSession b pl) = freshSession b pl"
    by (simp add: gameOverEffect_def freshSession_def totalShipCells_17)
  have h0: "countCells (\<lambda>x. hasShip x \<and> hit x) b = 0"
    by (rule countCells_zero) (use i2 in blast)
  have cells: "(hasShip x \<longrightarrow> truthy (shipId x)) \<and> (\<not> hasShip x \<longrightarrow> shipId x = None)
            \<and> sunk x = (hasShip x \<and> allHit b (shipId x))" if x: "cellAt b r c = Some x" for r c x
  proof -
    have a: "truthy (shipId x)" if "hasShip x"
    proof -
      from that i2 [OF x] obtain sid where sid: "shipId x = Some sid" by auto
      with i3 [OF x, of sid] have "map_of pl sid \<noteq> None" by auto
      then have "sid \<in> fst ` set pl" by (simp add: map_of_eq_None_iff)
      then have "sid \<in> set (map fst pl)" by simp
      then have "sid \<noteq> []" unfolding r(2) SHIPS_ids by auto
      with sid show ?thesis by (simp add: truthy_def)
    qed
    have b: "\<not> allHit b (shipId x)"
    proof -
      have "(r, c) \<in> set gridCoords" using ok x by (rule gridCoords_cellAt)
      moreover have "ownedBy b (shipId x) (r, c)" using x by (simp add: ownedBy_def)
      moreover have "\<not> hitAt b (r, c)" using x i2 [OF x] by (simp add: hitAt_def)
      ultimately show ?thesis unfolding allHit_def list_all_iff by blast
    qed
    from a b i2 [OF x] show ?thesis by auto
  qed
  show ?thesis unfolding eff gameInv_def
    using ok r(4) h0 cells by (simp add: freshSession_def totalShipCells_17)
qed

lemma gameInv_newGame: "newGame g i = Inr (st0, i') \<Longrightarrow> gameInv st0"
  by (auto simp: newGame_def split: sum.splits dest: gameInv_fresh)

lemma gameOver_gameOverEffect:
  "gameOver (gameOverEffect st) = (gameOver st \<or> totalShipCells \<le> hits st)"
  by (auto simp: gameOverEffect_def totalShipCells_17)

lemma gameInv_click:
  assumes inv: "gameInv st" and cl: "click st r c = Inr st'"
  shows "gameInv st'"
proof (cases "rejected st r c")
  case True
  with cl inv show ?thesis by (simp add: click_rejected)
next
  case False
  from cl obtain s1 where h: "handleShot st r c = Inr s1"
    and s: "st' = (if hits s1 \<noteq> hits st then gameOverEffect s1 else s1)"
    by (auto simp: click_def split: sum.splits)
  from handleShot_frame [OF h False] obtain x where
    x: "cellAt (board st) r c = Some x" and nh: "\<not> hit x" and ng: "\<not> gameOver st"
    and d: "dims (board s1) = dims (board st)"
    and cs: "\<And>r' c'. cellAt (board s1) r' c' =
          map_option (afterShot (r, c) (justSunk (board st) r c x) (shipId x) (r', c'))
            (cellAt (board st) r' c')"
    and cnt: "\<And>P. (\<forall>y. P (markSunk y) = P y) \<Longrightarrow>
          countCells P (board s1) + (if P x then 1 else 0) =
          countCells P (board st) + (if P (x\<lparr>hit := True\<rparr>) then 1 else 0)"
    and hi: "hits s1 = hits st + (if hasShip x then 1 else 0)"
    and go: "gameOver s1 = gameOver st"
    by blast
  let ?b = "board st" and ?b1 = "board s1"
  let ?js = "justSunk ?b r c x"
  from inv have ok: "boardOK ?b"
    and c17: "countCells hasShip ?b = totalShipCells"
    and hc: "hits st = countCells (\<lambda>x. hasShip x \<and> hit x) ?b"
    and gv: "gameOver st = (totalShipCells \<le> hits st)"
    and ci: "\<And>r c x. cellAt ?b r c = Some x \<Longrightarrow>
            (hasShip x \<longrightarrow> truthy (shipId x)) \<and> (\<not> hasShip x \<longrightarrow> shipId x = None)
            \<and> sunk x = (hasShip x \<and> allHit ?b (shipId x))"
    by (auto simp: gameInv_def)
  have tg: "(r, c) \<in> set gridCoords" using ok x by (rule gridCoords_cellAt)
  have p1: "boardOK ?b1" using ok boardOK_dims [OF d] by simp
  have p2: "countCells hasShip ?b1 = totalShipCells"
    using cnt [of hasShip] c17 by (simp add: markSunk_def)
  have p3: "hits s1 = countCells (\<lambda>x. hasShip x \<and> hit x) ?b1"
    using cnt [of "\<lambda>x. hasShip x \<and> hit x"] hc hi nh by (simp add: markSunk_def)
  have ah1: "allHit ?b1 s = list_all (\<lambda>p. ownedBy ?b s p \<longrightarrow> hitAt ?b p \<or> p = (r, c)) gridCoords" for s
    using cs by (rule allHit_afterShot)
  have ahn: "allHit (setCell ?b r c (x\<lparr>hit := True\<rparr>)) s =
      list_all (\<lambda>p. ownedBy ?b s p \<longrightarrow> hitAt ?b p \<or> p = (r, c)) gridCoords" for s
    using setCell_afterShot [OF x] by (rule allHit_afterShot)
  have own_t: "ownedBy ?b (shipId x) (r, c)" using x by (simp add: ownedBy_def)
  have nhit_t: "\<not> hitAt ?b (r, c)" using x nh by (simp add: hitAt_def)
  have old_not: "\<not> allHit ?b (shipId x)"
    using tg own_t nhit_t unfolding allHit_def list_all_iff by blast
  have other: "allHit ?b1 s = allHit ?b s" if "s \<noteq> shipId x" for s
  proof -
    have "\<not> ownedBy ?b s (r, c)" using x that by (simp add: ownedBy_def)
    then have "(ownedBy ?b s p \<longrightarrow> hitAt ?b p \<or> p = (r, c)) = (ownedBy ?b s p \<longrightarrow> hitAt ?b p)" for p
      by auto
    then show ?thesis unfolding ah1 allHit_plain [of "board st"] by simp
  qed
  have p5: "(hasShip y' \<longrightarrow> truthy (shipId y')) \<and> (\<not> hasShip y' \<longrightarrow> shipId y' = None)
            \<and> sunk y' = (hasShip y' \<and> allHit ?b1 (shipId y'))"
    if y': "cellAt ?b1 r' c' = Some y'" for r' c' y'
  proof -
    from y' cs [of r' c'] obtain y where y: "cellAt ?b r' c' = Some y"
      and yy: "y' = afterShot (r, c) ?js (shipId x) (r', c') y" by auto
    have ing: "(r', c') \<in> set gridCoords" using ok y by (rule gridCoords_cellAt)
    note cy = ci [OF y] and cx = ci [OF x]
    have f1: "hasShip y' = hasShip y" "shipId y' = shipId y"
      and f2: "sunk y' = (sunk y \<or> (?js \<and> shipId y = shipId x))"
      using ing by (simp_all add: yy afterShot_def)
    show ?thesis
    proof (cases "hasShip y")
      case False
      with cy have "shipId y = None" "\<not> sunk y" by auto
      moreover have "?js \<longrightarrow> shipId x \<noteq> None" by (auto simp: justSunk_def truthy_def)
      ultimately show ?thesis using False f1 f2 by auto
    next
      case True
      show ?thesis
      proof (cases "shipId y = shipId x")
        case same: True
        with True cy have "truthy (shipId x)" by simp
        then have "shipId x \<noteq> None" by (simp add: truthy_def)
        with cx have hx: "hasShip x" by auto
        have "sunk y = False" using cy True same old_not by simp
        moreover have "?js = allHit ?b1 (shipId x)"
          using hx \<open>truthy (shipId x)\<close> by (simp add: justSunk_def ahn ah1)
        ultimately show ?thesis using True cy f1 f2 same by simp
      next
        case False
        then show ?thesis using True cy f1 f2 other [of "shipId y"] by simp
      qed
    qed
  qed
  show ?thesis
  proof (cases "hasShip x")
    case True
    then have "st' = gameOverEffect s1" using s hi by simp
    moreover have "gameOver (gameOverEffect s1) = (totalShipCells \<le> hits s1)"
      using go ng by (simp add: gameOver_gameOverEffect)
    ultimately show ?thesis unfolding gameInv_def using p1 p2 p3 p5 by simp
  next
    case False
    then have "st' = s1" using s hi by simp
    moreover have "gameOver s1 = (totalShipCells \<le> hits s1)" using go gv hi False by simp
    ultimately show ?thesis unfolding gameInv_def using p1 p2 p3 p5 by simp
  qed
qed

lemma gameInv_play: "gameInv st \<Longrightarrow> play st cs = Inr st' \<Longrightarrow> gameInv st'"
proof (induction cs arbitrary: st)
  case Nil
  then show ?case by simp
next
  case (Cons p cs)
  obtain r c where p: "p = (r, c)" by (cases p)
  from Cons.prems(2) obtain s1 where c1: "click st r c = Inr s1" and rest: "play s1 cs = Inr st'"
    by (auto simp: p split: sum.splits)
  from Cons.IH [OF gameInv_click [OF Cons.prems(1) c1] rest] show ?case .
qed

lemma play_gameOver: "gameOver st \<Longrightarrow> play st cs = Inr st"
proof (induction cs)
  case Nil
  then show ?case by simp
next
  case (Cons p cs)
  obtain r c where p: "p = (r, c)" by (cases p)
  from Cons.prems have "click st r c = Inr st" by (simp add: click_rejected rejected_def)
  with Cons show ?case by (simp add: p)
qed

lemma play_append:
  "play st (xs @ ys) = (case play st xs of Inl e \<Rightarrow> Inl e | Inr s \<Rightarrow> play s ys)"
  by (induction xs arbitrary: st) (auto split: sum.splits)

lemma demo_newGame: "newGame demoRng 0 = Inr (demoGame, 17)"
  by code_simp

lemma demo_almost: "play demoGame (butlast demoShots) = Inr demoAlmost"
  by code_simp

lemma demo_last: "click demoAlmost 6 0 = Inr demoWin"
  by code_simp

lemma demo_win: "play demoGame demoShots = Inr demoWin"
proof -
  have "demoShots = butlast demoShots @ [(6, 0)]" by (simp add: demoShots_def)
  then have "play demoGame demoShots = play demoGame (butlast demoShots @ [(6, 0)])" by simp
  also have "\<dots> = Inr demoWin" unfolding play_append by (simp add: demo_almost demo_last)
  finally show ?thesis .
qed

lemma resetGame_gameOver: "resetGame g j st = Inr (st1, j') \<Longrightarrow> \<not> gameOver st1"
  by (auto simp: resetGame_def Let_def gameOverEffect_def totalShipCells_17
           split: sum.splits if_splits)

lemma newGame_gameOver: "newGame g i = Inr (st0, i') \<Longrightarrow> \<not> gameOver st0"
  by (auto simp: newGame_def freshSession_def gameOverEffect_def totalShipCells_17
           split: sum.splits if_splits)

text \<open>
  Claim C1, as the specification states it (\<open>hits = 20\<close>), fails: in the game on the board
  \<open>demoBoard\<close>, after the 17 shots at the 17 ship cells, \<open>gameOver\<close> is true and \<open>hits\<close> is 17.
\<close>

theorem gameOver_at_17_not_20:
  "newGame demoRng 0 = Inr (demoGame, 17) \<and> play demoGame demoShots = Inr demoWin
   \<and> gameOver demoWin \<and> hits demoWin = 17 \<and> \<not> (gameOver demoWin = (hits demoWin = 20))"
  using demo_newGame demo_win by (simp add: demoWin_def)

text \<open>
  Claim C1, amended. In every game (the initial state of \<open>newGame\<close>, then any sequence of
  clicks) \<open>gameOver\<close> is false at the start and holds exactly when \<open>hits\<close> is 17, which it
  never exceeds; once it holds, every further sequence of clicks leaves the state as it
  is; \<open>resetGame\<close> makes it false again. The effect that sets the flag is the same in both
  versions of the component.
\<close>

theorem gameOver_iff_17_hits:
  assumes "newGame g i = Inr (st0, i')" and "play st0 cs = Inr st"
  shows "\<not> gameOver st0 \<and> gameOver st = (hits st = 17) \<and> hits st \<le> 17
    \<and> (gameOver st \<longrightarrow> (\<forall>more. play st more = Inr st))
    \<and> (\<forall>g' j st1 j'. resetGame g' j st = Inr (st1, j') \<longrightarrow> \<not> gameOver st1)
    \<and> gameOverEffect_App st = gameOverEffect st"
proof -
  have inv: "gameInv st" using gameInv_newGame [OF assms(1)] assms(2) by (rule gameInv_play)
  have app: "gameOverEffect_App st = gameOverEffect st"
    by (auto simp: gameOverEffect_App_def gameOverEffect_def)
  from newGame_gameOver [OF assms(1)] gameInv_gameOver [OF inv] gameInv_hits_le [OF inv]
    play_gameOver [of st] resetGame_gameOver app
  show ?thesis by blast
qed

theorem gameOver_iff_17_hits_witness:
  "newGame demoRng 0 = Inr (demoGame, 17) \<and> play demoGame demoShots = Inr demoWin
   \<and> gameOver demoWin \<and> hits demoWin = 17 \<and> play demoWin [(0, 0), (4, 5)] = Inr demoWin
   \<and> (\<exists>st1. resetGame demoRng 0 demoWin = Inr (st1, 17) \<and> \<not> gameOver st1)"
proof -
  note a = demo_newGame and b = demo_win
  have c: "gameOver demoWin" "hits demoWin = 17" by (simp_all add: demoWin_def)
  have "case resetGame demoRng 0 demoWin of Inl e \<Rightarrow> False | Inr (s, j) \<Rightarrow> j = 17" by code_simp
  then obtain st1 where d: "resetGame demoRng 0 demoWin = Inr (st1, 17)"
    by (cases "resetGame demoRng 0 demoWin") auto
  from gameOver_iff_17_hits [OF a b] a b c d show ?thesis by blast
qed



lemma allHit_iff:
  assumes "boardOK b"
  shows "allHit b s = (\<forall>r c z. cellAt b r c = Some z \<and> shipId z = s \<longrightarrow> hit z)"
proof
  assume a: "allHit b s"
  show "\<forall>r c z. cellAt b r c = Some z \<and> shipId z = s \<longrightarrow> hit z"
  proof (intro allI impI)
    fix r c z assume z: "cellAt b r c = Some z \<and> shipId z = s"
    then have "(r, c) \<in> set gridCoords" using assms gridCoords_cellAt by blast
    with a have "ownedBy b s (r, c) \<longrightarrow> hitAt b (r, c)"
      unfolding allHit_def list_all_iff by blast
    with z show "hit z" by (simp add: ownedBy_def hitAt_def)
  qed
next
  assume a: "\<forall>r c z. cellAt b r c = Some z \<and> shipId z = s \<longrightarrow> hit z"
  have "ownedBy b s p \<longrightarrow> hitAt b p" for p
    using a by (cases "cellAt b (fst p) (snd p)") (auto simp: ownedBy_def hitAt_def)
  then show "allHit b s" by (simp add: allHit_def list_all_iff)
qed

lemma ownedBy_grow:
  assumes "cellsGrow b0 b" and "dims b = dims b0"
  shows "ownedBy b s p = ownedBy b0 s p"
proof (cases "cellAt b0 (fst p) (snd p)")
  case None
  then have "cellAt b (fst p) (snd p) = None" using cellAt_dims_cong [OF assms(2)] by simp
  with None show ?thesis by (simp add: ownedBy_def)
next
  case (Some y)
  with assms(1) obtain y' where "cellAt b (fst p) (snd p) = Some y'" "shipId y' = shipId y"
    unfolding cellsGrow_def by blast
  with Some show ?thesis by (simp add: ownedBy_def)
qed

lemma gameInv_cell:
  "gameInv st \<Longrightarrow> cellAt (board st) r c = Some x \<Longrightarrow>
     (hasShip x \<longrightarrow> truthy (shipId x)) \<and> (\<not> hasShip x \<longrightarrow> shipId x = None)
     \<and> sunk x = (hasShip x \<and> allHit (board st) (shipId x))"
  unfolding gameInv_def by blast

lemma same_hits_same_sunk:
  assumes i1: "gameInv s1" and i2: "gameInv s2"
    and g1: "cellsGrow b0 (board s1)" and g2: "cellsGrow b0 (board s2)"
    and d1: "dims (board s1) = dims b0" and d2: "dims (board s2) = dims b0"
    and h: "\<And>p. hitAt (board s1) p = hitAt (board s2) p"
    and z1: "cellAt (board s1) r c = Some z1" and z2: "cellAt (board s2) r c = Some z2"
  shows "sunk z1 = sunk z2"
proof -
  from z1 cellAt_dims_cong [OF d1, of r c] obtain z0 where z0: "cellAt b0 r c = Some z0" by auto
  from g1 z0 z1 have a: "hasShip z1 = hasShip z0" "shipId z1 = shipId z0"
    unfolding cellsGrow_def by fastforce+
  from g2 z0 z2 have b: "hasShip z2 = hasShip z0" "shipId z2 = shipId z0"
    unfolding cellsGrow_def by fastforce+
  have "allHit (board s1) s = allHit (board s2) s" for s
    unfolding allHit_def using h ownedBy_grow [OF g1 d1] ownedBy_grow [OF g2 d2] by simp
  moreover from gameInv_cell [OF i1 z1] have "sunk z1 = (hasShip z1 \<and> allHit (board s1) (shipId z1))"
    by simp
  moreover from gameInv_cell [OF i2 z2] have "sunk z2 = (hasShip z2 \<and> allHit (board s2) (shipId z2))"
    by simp
  ultimately show ?thesis using a b by simp
qed

lemma length_filter_conj_eq:
  "length (filter (\<lambda>x. P x \<and> Q x) xs) = length (filter P xs) \<Longrightarrow> x \<in> set xs \<Longrightarrow> P x \<Longrightarrow> Q x"
proof (induction xs)
  case Nil
  then show ?case by simp
next
  case (Cons a xs)
  have le: "length (filter (\<lambda>x. P x \<and> Q x) xs) \<le> length (filter P xs)"
    by (rule length_filter_mono) simp
  show ?case
  proof (cases "P a")
    case False
    with Cons show ?thesis by auto
  next
    case True
    show ?thesis
    proof (cases "Q a")
      case False
      with True Cons.prems(1) le show ?thesis by simp
    next
      case qa: True
      with True Cons show ?thesis by auto
    qed
  qed
qed

lemma gameOver_all_hit:
  assumes "gameInv st" and "gameOver st" and "cellAt (board st) r c = Some x" and "hasShip x"
  shows "hit x"
proof -
  from assms(1,2) have "countCells (\<lambda>x. hasShip x \<and> hit x) (board st) = countCells hasShip (board st)"
    using gameInv_hits_le [OF assms(1)] by (simp add: gameInv_def totalShipCells_17)
  moreover have "x \<in> set (concat (board st))"
    using cellAt_iff_mem [of "board st" x] assms(3) by auto
  ultimately show ?thesis using assms(4) unfolding countCells_def
    by (rule length_filter_conj_eq)
qed

text \<open>Which ship cells are hit after a sequence of clicks: those that were, and the targets.\<close>

lemma play_hit_cells:
  assumes "gameInv st" and "play st cs = Inr s" and "cellAt (board st) r c = Some x" and "hasShip x"
  shows "\<exists>y. cellAt (board s) r c = Some y \<and> hit y = (hit x \<or> (r, c) \<in> set cs)"
  using assms
proof (induction cs arbitrary: st x)
  case Nil
  then show ?case by simp
next
  case (Cons p cs)
  obtain r1 c1 where p: "p = (r1, c1)" by (cases p)
  from Cons.prems(2) obtain s1 where c1: "click st r1 c1 = Inr s1" and rest: "play s1 cs = Inr s"
    by (auto simp: p split: sum.splits)
  have inv1: "gameInv s1" using Cons.prems(1) c1 by (rule gameInv_click)
  show ?case
  proof (cases "rejected st r1 c1")
    case True
    with c1 have eq: "s1 = st" by (simp add: click_rejected)
    from Cons.prems(3) eq have x1: "cellAt (board s1) r c = Some x" by simp
    from Cons.IH [OF inv1 rest x1 Cons.prems(4)]
    obtain y where y: "cellAt (board s) r c = Some y" "hit y = (hit x \<or> (r, c) \<in> set cs)"
      by auto
    have "hit x" if "(r, c) = (r1, c1)"
    proof (cases "gameOver st")
      case True
      with Cons.prems(1) show ?thesis using Cons.prems(3,4) by (rule gameOver_all_hit)
    next
      case False
      with \<open>rejected st r1 c1\<close> that Cons.prems(3) show ?thesis by (auto simp: rejected_def)
    qed
    with y show ?thesis by (auto simp: p)
  next
    case False
    from c1 obtain s0 where h: "handleShot st r1 c1 = Inr s0" and b: "board s1 = board s0"
      by (auto simp: click_def split: sum.splits if_splits)
    from handleShot_frame [OF h False] obtain t where
      "\<forall>r' c'. cellAt (board s0) r' c' =
          map_option (afterShot (r1, c1) (justSunk (board st) r1 c1 t) (shipId t) (r', c'))
            (cellAt (board st) r' c')"
      by blast
    with Cons.prems(3) b obtain y1 where y1: "cellAt (board s1) r c = Some y1"
      "hit y1 = (hit x \<or> (r, c) = (r1, c1))" "hasShip y1 = hasShip x"
      by (simp add: afterShot_def)
    from Cons.IH [OF inv1 rest y1(1)] y1(3) Cons.prems(4)
    obtain y where "cellAt (board s) r c = Some y" "hit y = (hit y1 \<or> (r, c) \<in> set cs)"
      by auto
    with y1(2) show ?thesis by (auto simp: p)
  qed
qed

lemma same_shots_same_sunk:
  assumes inv0: "gameInv st0"
    and p1: "play st0 cs1 = Inr s1" and p2: "play st0 cs2 = Inr s2" and eq: "set cs1 = set cs2"
    and z1: "cellAt (board s1) r c = Some z1" and z2: "cellAt (board s2) r c = Some z2"
  shows "sunk z1 = sunk z2 \<and> (hasShip z1 \<longrightarrow> hit z1 = hit z2)"
proof -
  note i1 = gameInv_play [OF inv0 p1] and i2 = gameInv_play [OF inv0 p2]
  from play_grow [OF p1] have g1: "cellsGrow (board st0) (board s1)"
    and d1: "dims (board s1) = dims (board st0)" by simp_all
  from play_grow [OF p2] have g2: "cellsGrow (board st0) (board s2)"
    and d2: "dims (board s2) = dims (board st0)" by simp_all
  have ships: "hitAt (board s1) q = hitAt (board s2) q"
    if q: "cellAt (board st0) (fst q) (snd q) = Some x0" "hasShip x0" for q x0
  proof -
    from play_hit_cells [OF inv0 p1 q] play_hit_cells [OF inv0 p2 q] eq
    show ?thesis by (auto simp: hitAt_def)
  qed
  have ah: "allHit (board s1) sid = allHit (board s2) sid" if "sid \<noteq> None" for sid
  proof -
    have "(ownedBy (board s1) sid q \<longrightarrow> hitAt (board s1) q) =
          (ownedBy (board s2) sid q \<longrightarrow> hitAt (board s2) q)" for q
    proof (cases "ownedBy (board st0) sid q")
      case False
      then show ?thesis by (simp add: ownedBy_grow [OF g1 d1] ownedBy_grow [OF g2 d2])
    next
      case True
      then obtain x0 where x0: "cellAt (board st0) (fst q) (snd q) = Some x0" "shipId x0 = sid"
        by (auto simp: ownedBy_def split: option.splits)
      with gameInv_cell [OF inv0 x0(1)] that have "hasShip x0" by auto
      from ships [OF x0(1) this] show ?thesis
        by (simp add: ownedBy_grow [OF g1 d1] ownedBy_grow [OF g2 d2])
    qed
    then show ?thesis by (simp add: allHit_def)
  qed
  from z1 cellAt_dims_cong [OF d1, of r c] obtain z0 where z0: "cellAt (board st0) r c = Some z0"
    by auto
  from g1 z0 z1 have a: "hasShip z1 = hasShip z0" "shipId z1 = shipId z0"
    unfolding cellsGrow_def by fastforce+
  from g2 z0 z2 have b: "hasShip z2 = hasShip z0" "shipId z2 = shipId z0"
    unfolding cellsGrow_def by fastforce+
  have h: "hit z1 = hit z2" if "hasShip z1"
    using ships [of "(r, c)" z0] z0 that a z1 z2 by (simp add: hitAt_def)
  have s: "sunk z1 = sunk z2"
  proof (cases "hasShip z0")
    case False
    with gameInv_cell [OF i1 z1] gameInv_cell [OF i2 z2] a b show ?thesis by simp
  next
    case True
    with gameInv_cell [OF inv0 z0] have "shipId z0 \<noteq> None" by (auto simp: truthy_def)
    from ah [OF this] gameInv_cell [OF i1 z1] gameInv_cell [OF i2 z2] a b show ?thesis by simp
  qed
  from s h show ?thesis by simp
qed

text \<open>
  Claim C5. In every game, a click on a ship cell that is not yet hit, before the game is
  over, is accepted: \<open>applyShot\<close> returns the board with the target hit, \<open>updateAfterHit\<close>
  returns \<open>justSunk\<close>, which is true exactly when every cell with the ship's id is hit in
  the board that is stored; then all these cells are sunk and \<open>sunkCount\<close> went up by one,
  otherwise none of them is sunk and \<open>sunkCount\<close> stays. The outcome depends on which
  cells are hit, not on the order of the shots: two sequences of clicks from the same
  initial state that aim at the same cells, in any order and any number of times, leave
  the same ship cells hit and the same cells sunk; and any two sequences that leave the
  same cells hit leave the same cells sunk.
\<close>

theorem sunk_exactly_when_all_hit:
  assumes "newGame g i = Inr (st0, i')" and "play st0 cs = Inr st"
    and "\<not> gameOver st" and "cellAt (board st) r c = Some x" and "\<not> hit x" and "hasShip x"
  shows "\<exists>st' sid nb b' cnt js.
      shipId x = Some sid
    \<and> applyShot st r c = Inr \<lparr>changed = True, board_of = nb, wasHit = True, shipId_of = Some sid\<rparr>
    \<and> updateAfterHit nb (Some sid) (sunkCount st) = Inr (js, b', cnt)
    \<and> click st r c = Inr st' \<and> board st' = b' \<and> sunkCount st' = cnt
    \<and> (\<exists>y. cellAt b' r c = Some y \<and> hit y)
    \<and> js = (\<forall>r' c' z. cellAt b' r' c' = Some z \<and> shipId z = Some sid \<longrightarrow> hit z)
    \<and> (\<forall>r' c' z. cellAt b' r' c' = Some z \<and> shipId z = Some sid \<longrightarrow> sunk z = js)
    \<and> cnt = sunkCount st + (if js then 1 else 0)
    \<and> (\<forall>cs1 cs2 s1 s2.
          play st0 cs1 = Inr s1 \<and> play st0 cs2 = Inr s2 \<and> set cs1 = set cs2 \<longrightarrow>
          (\<forall>r' c' z1 z2. cellAt (board s1) r' c' = Some z1 \<and> cellAt (board s2) r' c' = Some z2
             \<longrightarrow> sunk z1 = sunk z2 \<and> (hasShip z1 \<longrightarrow> hit z1 = hit z2)))
    \<and> (\<forall>cs1 cs2 s1 s2.
          play st0 cs1 = Inr s1 \<and> play st0 cs2 = Inr s2
          \<and> (\<forall>p. hitAt (board s1) p = hitAt (board s2) p) \<longrightarrow>
          (\<forall>r' c' z1 z2. cellAt (board s1) r' c' = Some z1 \<and> cellAt (board s2) r' c' = Some z2
             \<longrightarrow> sunk z1 = sunk z2))"
proof -
  note inv0 = gameInv_newGame [OF assms(1)]
  have inv: "gameInv st" using inv0 assms(2) by (rule gameInv_play)
  then have ok: "boardOK (board st)" by (simp add: gameInv_def)
  from gameInv_cell [OF inv assms(4)] assms(6) have tr: "truthy (shipId x)" by simp
  then obtain sid where sid: "shipId x = Some sid" by (auto simp: truthy_def)
  let ?nb = "setCell (board st) r c (x\<lparr>hit := True\<rparr>)"
  have ap: "applyShot st r c =
      Inr \<lparr>changed = True, board_of = ?nb, wasHit = True, shipId_of = Some sid\<rparr>"
    using assms(3-6) sid by (simp add: applyShot_def)
  have "gridIn ?nb" using ok by (intro boardOK_gridIn) (simp add: boardOK_setCell)
  from updateAfterHit_total [OF this] obtain js b' cnt where
    u: "updateAfterHit ?nb (Some sid) (sunkCount st) = Inr (js, b', cnt)" by blast
  let ?s1 = "st\<lparr>shots := shots st + 1, hits := hits st + 1, board := b', sunkCount := cnt\<rparr>"
  have h: "handleShot st r c = Inr ?s1"
    using handleShot_hit [OF assms(3-6)] u sid by simp
  let ?st' = "gameOverEffect ?s1"
  have cl: "click st r c = Inr ?st'" using h by (simp add: click_def)
  have b': "board ?st' = b'" and c': "sunkCount ?st' = cnt" by simp_all
  have inv': "gameInv ?st'" using inv cl by (rule gameInv_click)
  then have ok': "boardOK b'" using b' by (simp add: gameInv_def)
  note r = updateAfterHit_Inr [OF u]
  have nr: "\<not> rejected st r c" using assms(3-5) by (simp add: rejected_def)
  from handleShot_frame [OF h nr] assms(4) have
    cs: "\<And>r' c'. cellAt b' r' c' =
          map_option (afterShot (r, c) (justSunk (board st) r c x) (shipId x) (r', c'))
            (cellAt (board st) r' c')"
    by auto
  have hitT: "\<exists>y. cellAt b' r c = Some y \<and> hit y"
    using cs [of r c] assms(4) by (simp add: afterShot_def)
  have "allHit ?nb (Some sid) = allHit b' (Some sid)"
    using allHit_afterShot [of b' "(r, c)" _ "shipId x" "board st" "Some sid", OF cs]
      allHit_afterShot [of ?nb "(r, c)" False "shipId x" "board st" "Some sid",
        OF setCell_afterShot [OF assms(4)]]
    by simp
  moreover from tr sid have "truthy (Some sid)" by simp
  moreover from r have "js = (truthy (Some sid) \<and> allHit ?nb (Some sid))" by simp
  ultimately have js: "js = allHit b' (Some sid)" by simp
  then have js': "js = (\<forall>r' c' z. cellAt b' r' c' = Some z \<and> shipId z = Some sid \<longrightarrow> hit z)"
    using allHit_iff [OF ok'] by simp
  have sk: "sunk z = js" if "cellAt b' r' c' = Some z \<and> shipId z = Some sid" for r' c' z
  proof -
    from that have z: "cellAt (board ?st') r' c' = Some z" by simp
    from gameInv_cell [OF inv' z] have "\<not> hasShip z \<longrightarrow> shipId z = None"
      and "sunk z = (hasShip z \<and> allHit b' (shipId z))"
      by simp_all
    with that js show ?thesis by auto
  qed
  from r have cn: "cnt = sunkCount st + (if js then 1 else 0)" by simp
  have ord: "sunk z1 = sunk z2"
    if "play st0 cs1 = Inr s1" "play st0 cs2 = Inr s2"
      "\<forall>p. hitAt (board s1) p = hitAt (board s2) p"
      "cellAt (board s1) r' c' = Some z1" "cellAt (board s2) r' c' = Some z2"
    for cs1 cs2 s1 s2 r' c' z1 z2
  proof -
    from play_grow [OF that(1)] have g1: "cellsGrow (board st0) (board s1)"
      and d1: "dims (board s1) = dims (board st0)" by simp_all
    from play_grow [OF that(2)] have g2: "cellsGrow (board st0) (board s2)"
      and d2: "dims (board s2) = dims (board st0)" by simp_all
    have hh: "\<And>p. hitAt (board s1) p = hitAt (board s2) p" using that(3) by blast
    show ?thesis
      by (rule same_hits_same_sunk [OF gameInv_play [OF inv0 that(1)] gameInv_play [OF inv0 that(2)]
            g1 g2 d1 d2 hh that(4) that(5)])
  qed
  have sk': "\<forall>r' c' z. cellAt b' r' c' = Some z \<and> shipId z = Some sid \<longrightarrow> sunk z = js"
    using sk by blast
  have ord': "\<forall>cs1 cs2 s1 s2.
          play st0 cs1 = Inr s1 \<and> play st0 cs2 = Inr s2
          \<and> (\<forall>p. hitAt (board s1) p = hitAt (board s2) p) \<longrightarrow>
          (\<forall>r' c' z1 z2. cellAt (board s1) r' c' = Some z1 \<and> cellAt (board s2) r' c' = Some z2
             \<longrightarrow> sunk z1 = sunk z2)"
    using ord by blast
  have perm': "\<forall>cs1 cs2 s1 s2.
          play st0 cs1 = Inr s1 \<and> play st0 cs2 = Inr s2 \<and> set cs1 = set cs2 \<longrightarrow>
          (\<forall>r' c' z1 z2. cellAt (board s1) r' c' = Some z1 \<and> cellAt (board s2) r' c' = Some z2
             \<longrightarrow> sunk z1 = sunk z2 \<and> (hasShip z1 \<longrightarrow> hit z1 = hit z2))"
    using same_shots_same_sunk [OF inv0] by blast
  from hitT obtain y where y: "cellAt b' r c = Some y" "hit y" by blast
  show ?thesis
    using sid ap u cl b' c' y js' sk' cn perm' ord' by (intro exI conjI) assumption+
qed

theorem sunk_exactly_when_all_hit_witness:
  "newGame demoRng 0 = Inr (demoGame, 17) \<and> play demoGame (butlast demoShots) = Inr demoAlmost
   \<and> \<not> gameOver demoAlmost \<and> cellAt (board demoAlmost) 6 0 = Some (sc ''E'')
   \<and> \<not> hit (sc ''E'') \<and> hasShip (sc ''E'')
   \<and> click demoAlmost 6 0 = Inr demoWin \<and> sunkCount demoWin = sunkCount demoAlmost + 1
   \<and> cellAt (board demoWin) 5 0 = Some (hs ''E'') \<and> cellAt (board demoWin) 6 0 = Some (hs ''E'')"
proof -
  have a: "\<not> gameOver demoAlmost" by (simp add: demoAlmost_def)
  have b: "cellAt (board demoAlmost) 6 0 = Some (sc ''E'')" by code_simp
  have c: "\<not> hit (sc ''E'')" "hasShip (sc ''E'')" by (simp_all add: sc_def)
  have d: "sunkCount demoWin = sunkCount demoAlmost + 1" by (simp add: demoAlmost_def demoWin_def)
  have e: "cellAt (board demoWin) 5 0 = Some (hs ''E'')" "cellAt (board demoWin) 6 0 = Some (hs ''E'')"
    by code_simp+
  have "\<exists>st'. click demoAlmost 6 0 = Inr st'"
    using sunk_exactly_when_all_hit [OF demo_newGame demo_almost a b c]
    by (elim exE conjE) (rule exI)
  with demo_newGame demo_almost demo_last a b c d e show ?thesis by simp
qed

























end
